theory Spec2Isabelle
  imports Main
begin

section \<open>Python lists and exceptions\<close>

text \<open>
  The index is written in Python. An exception ends the operation that raised it: every
  function that can raise returns \<open>error + result\<close>, with \<open>Inl\<close> for the exception.
  \<open>RecursionError\<close> is the interpreter's bound on nested calls; it is the only way
  \<open>Page.remove\<close>, whose recursion is not structural, can fail to return.
\<close>

datatype error = IndexError | AttributeError | RecursionError

definition bind_e :: "error + 'a \<Rightarrow> ('a \<Rightarrow> error + 'b) \<Rightarrow> error + 'b" where
  "bind_e m f = (case m of Inl e \<Rightarrow> Inl e | Inr x \<Rightarrow> f x)"

text \<open>\<open>xs[i]\<close> for an index that is not negative.\<close>

definition getitem :: "'a list \<Rightarrow> nat \<Rightarrow> error + 'a" where
  "getitem xs i = (if i < length xs then Inr (xs ! i) else Inl IndexError)"

text \<open>\<open>xs[-1]\<close>.\<close>

definition getlast :: "'a list \<Rightarrow> error + 'a" where
  "getlast xs = (if xs = [] then Inl IndexError else Inr (last xs))"

text \<open>\<open>xs[i] = x\<close> for an index that is not negative.\<close>

definition setitem :: "'a list \<Rightarrow> nat \<Rightarrow> 'a \<Rightarrow> error + 'a list" where
  "setitem xs i x = (if i < length xs then Inr (xs[i := x]) else Inl IndexError)"

text \<open>\<open>xs.pop(i)\<close> for an index that is not negative; the popped element is dropped.\<close>

definition pop :: "'a list \<Rightarrow> nat \<Rightarrow> error + 'a list" where
  "pop xs i = (if i < length xs then Inr (take i xs @ drop (Suc i) xs) else Inl IndexError)"

text \<open>\<open>xs.insert(i, x)\<close> for an index that is not negative: never raises, an index past
  the end appends.\<close>

definition list_insert :: "'a list \<Rightarrow> nat \<Rightarrow> 'a \<Rightarrow> 'a list" where
  "list_insert xs i x = take i xs @ x # drop i xs"

section \<open>Keys and pages\<close>

definition DEGREE :: nat where
  "DEGREE = 16"

text \<open>A stored \<open>SmartKey\<close>: the key and the list of the values added under it.
  \<open>__lt__\<close> and \<open>__eq__\<close> compare the \<open>key\<close> fields only.\<close>

datatype ('k, 'v) SmartKey = SmartKey (key: 'k) (val: "'v list")

text \<open>A \<open>Page\<close> owns its key list and its child pages. The model is a tree of values:
  it is exact as long as no two slots of the structure hold the same object, which
  is how every method below leaves a structure that it found so.\<close>

datatype ('k, 'v) Page =
  Page (bottom: bool) (keys: "('k, 'v) SmartKey list") (children: "('k, 'v) Page list")

text \<open>\<open>bisect.bisect_right(a, x)\<close> of the standard library, on \<open>SmartKey\<close>s:
  \<open>lo, hi = 0, len(a); while lo < hi: mid = (lo + hi) // 2;
  if x < a[mid]: hi = mid else: lo = mid + 1; return lo\<close>.
  The reads \<open>a[mid]\<close> are in range since \<open>mid < hi \<le> len(a)\<close>.\<close>

function bisect_loop :: "('k::linorder, 'v) SmartKey list \<Rightarrow> 'k \<Rightarrow> nat \<Rightarrow> nat \<Rightarrow> nat" where
  "bisect_loop a x lo hi =
     (if lo < hi then
        (let mid = (lo + hi) div 2 in
         if x < key (a ! mid) then bisect_loop a x lo mid
         else bisect_loop a x (mid + 1) hi)
      else lo)"
  by pat_completeness auto
termination
  by (relation "measure (\<lambda>(a, x, lo, hi). hi - lo)") auto

declare bisect_loop.simps [simp del]

definition bisect_right :: "('k::linorder, 'v) SmartKey list \<Rightarrow> 'k \<Rightarrow> nat" where
  "bisect_right a x = bisect_loop a x 0 (length a)"

definition is_external :: "('k, 'v) Page \<Rightarrow> bool" where
  "is_external self = bottom self"

definition is_full :: "('k, 'v) Page \<Rightarrow> bool" where
  "is_full self = (length (keys self) = DEGREE * 2 - 1)"

text \<open>\<open>Page.add_key_value\<close> mutates the page; the model returns the page after the call.\<close>

definition add_key_value ::
  "('k::linorder, 'v) Page \<Rightarrow> 'k \<Rightarrow> 'v \<Rightarrow> error + ('k, 'v) Page" where
  "add_key_value self k v =
     (let wrapped_key = SmartKey k [v] in
      if length (keys self) = 0 then
        Inr (Page (bottom self) (keys self @ [wrapped_key]) (children self))
      else
        (let left_upper_index = bisect_right (keys self) (key wrapped_key);
             inserted = Page (bottom self)
               (list_insert (keys self) left_upper_index wrapped_key) (children self)
         in
         if left_upper_index > 0 then
           bind_e (getitem (keys self) (left_upper_index - 1)) (\<lambda>prev.
             if key prev = key wrapped_key then
               bind_e (setitem (keys self) (left_upper_index - 1)
                         (SmartKey (key prev) (val prev @ val wrapped_key))) (\<lambda>ks.
                 Inr (Page (bottom self) ks (children self)))
             else Inr inserted)
         else Inr inserted))"

lemma bind_e_cong [fundef_cong]:
  "m = m' \<Longrightarrow> (\<And>x. m' = Inr x \<Longrightarrow> f x = f' x) \<Longrightarrow> bind_e m f = bind_e m' f'"
  by (cases m') (simp_all add: bind_e_def)

lemma child_size:
  "c \<in> set (children self) \<Longrightarrow> size c < size (self :: ('k, 'v) Page)"
proof (cases self)
  case (Page b ks cs)
  assume "c \<in> set (children self)"
  then have "c \<in> set cs" using Page by simp
  then have "size c \<le> size_list size cs"
    by (rule size_list_estimation') simp
  then show ?thesis using Page by simp
qed

lemma getitem_size:
  "getitem (children self) i = Inr c \<Longrightarrow> size c < size (self :: ('k, 'v) Page)"
  by (rule child_size) (auto simp: getitem_def split: if_splits)

lemma getlast_size:
  "getlast (children self) = Inr c \<Longrightarrow> size c < size (self :: ('k, 'v) Page)"
  by (rule child_size) (auto simp: getlast_def split: if_splits)

text \<open>\<open>Page.find\<close>: \<open>None\<close> is Python's \<open>None\<close>, \<open>Some vs\<close> the value list of the key.\<close>

function find_page :: "('k::linorder, 'v) Page \<Rightarrow> 'k \<Rightarrow> error + 'v list option" where
  "find_page self k =
     (let left_upper_index = bisect_right (keys self) k in
      if left_upper_index = 0 then
        (if length (children self) = 0 then Inr None
         else
           bind_e (getitem (keys self) 0) (\<lambda>k0.
             if k > key k0 then bind_e (getitem (children self) 1) (\<lambda>c. find_page c k)
             else bind_e (getitem (children self) 0) (\<lambda>c. find_page c k)))
      else
        bind_e (getitem (keys self) (left_upper_index - 1)) (\<lambda>prevKey.
          if key prevKey = k then Inr (Some (val prevKey))
          else if is_external self then Inr None
          else if k > key prevKey then
            bind_e (getitem (children self) left_upper_index) (\<lambda>c. find_page c k)
          else
            bind_e (getitem (children self) (left_upper_index - 1)) (\<lambda>c. find_page c k)))"
  by pat_completeness auto
termination
  by (relation "measure (\<lambda>(self, k). size self)") (auto dest: getitem_size)

text \<open>\<open>Page.next\<close>: the child at the bisection index.\<close>

definition next_page :: "('k::linorder, 'v) Page \<Rightarrow> 'k \<Rightarrow> error + ('k, 'v) Page" where
  "next_page self k =
     (let left_upper_index = bisect_right (keys self) k in
      getitem (children self) left_upper_index)"

text \<open>\<open>Page.split\<close> returns \<open>(r_key, new_page)\<close> and cuts the page itself down; the
  model returns the page after the call as the first component.\<close>

definition split ::
  "('k, 'v) Page \<Rightarrow> error + (('k, 'v) Page \<times> ('k, 'v) SmartKey \<times> ('k, 'v) Page)" where
  "split self =
     bind_e (getitem (keys self) (DEGREE - 1)) (\<lambda>r_key.
       let new_page_keys = drop DEGREE (keys self);
           self_keys = take (DEGREE - 1) (keys self);
           new_page_children = drop DEGREE (children self);
           self_children = take DEGREE (children self);
           new_page = Page (bottom self) new_page_keys new_page_children
       in Inr (Page (bottom self) self_keys self_children, r_key, new_page))"

text \<open>\<open>Page.split_and_add_page(ch)\<close>: \<open>self.children.index(ch)\<close> compares pages by
  identity, so it is the slot that holds \<open>ch\<close>; the model is given that slot.\<close>

definition split_and_add_page :: "('k, 'v) Page \<Rightarrow> nat \<Rightarrow> error + ('k, 'v) Page" where
  "split_and_add_page self ind =
     bind_e (getitem (children self) ind) (\<lambda>ch.
     bind_e (split ch) (\<lambda>(ch', k, z).
       Inr (Page (bottom self) (list_insert (keys self) ind k)
              (list_insert ((children self)[ind := ch']) (ind + 1) z))))"

function find_predecessor :: "('k, 'v) Page \<Rightarrow> error + ('k, 'v) SmartKey" where
  "find_predecessor self =
     (if is_external self then getlast (keys self)
      else bind_e (getlast (children self)) (\<lambda>c. find_predecessor c))"
  by pat_completeness auto
termination
  by (relation "measure size") (auto dest: getlast_size)

function find_successor :: "('k, 'v) Page \<Rightarrow> error + ('k, 'v) SmartKey" where
  "find_successor self =
     (if is_external self then getitem (keys self) 0
      else bind_e (getitem (children self) 0) (\<lambda>c. find_successor c))"
  by pat_completeness auto
termination
  by (relation "measure size") (auto dest: getitem_size)

declare find_page.simps [simp del] find_predecessor.simps [simp del]
  find_successor.simps [simp del]

text \<open>\<open>Page.merge(ind, left, right)\<close> returns the new page, which is also the child
  \<open>ind\<close> of the page after the call; the model returns both.\<close>

definition merge ::
  "('k, 'v) Page \<Rightarrow> nat \<Rightarrow> ('k, 'v) Page \<Rightarrow> ('k, 'v) Page \<Rightarrow>
   error + (('k, 'v) Page \<times> ('k, 'v) Page)" where
  "merge self ind left right =
     bind_e (getitem (keys self) ind) (\<lambda>sep.
       let new_page = Page (is_external left \<and> is_external right)
                        (keys left @ [sep] @ keys right) (children left @ children right)
       in
       bind_e (pop (children self) (ind + 1)) (\<lambda>cs.
       bind_e (pop (keys self) ind) (\<lambda>ks.
       bind_e (setitem cs ind new_page) (\<lambda>cs'.
         Inr (Page (bottom self) ks cs', new_page)))))"

text \<open>\<open>Page.borrow_from_left(kind, ind)\<close>. With \<open>ind = 0\<close> the read
  \<open>self.children[ind - 1]\<close> is Python's \<open>children[-1]\<close>, the last child, which is the
  child \<open>ind\<close> itself when there is only one; \<open>remove\<close> calls it with \<open>ind > 0\<close> only.\<close>

definition borrow_from_left ::
  "('k, 'v) Page \<Rightarrow> nat \<Rightarrow> nat \<Rightarrow> error + ('k, 'v) Page" where
  "borrow_from_left self kind ind =
     (let li = (if ind = 0 then length (children self) - 1 else ind - 1) in
      bind_e (getitem (children self) li) (\<lambda>left.
      bind_e (getitem (children self) ind) (\<lambda>cur.
      bind_e (getitem (keys self) kind) (\<lambda>sep.
        if li \<noteq> ind then
          bind_e (getlast (keys left)) (\<lambda>lk.
            let self_keys = (keys self)[kind := lk];
                cur_keys = list_insert (keys cur) 0 sep;
                left_keys = butlast (keys left)
            in
            if \<not> is_external cur then
              bind_e (getlast (children left)) (\<lambda>lc.
                Inr (Page (bottom self) self_keys
                  ((children self)
                     [ind := Page (bottom cur) cur_keys (list_insert (children cur) 0 lc),
                      li := Page (bottom left) left_keys (butlast (children left))])))
            else
              Inr (Page (bottom self) self_keys
                ((children self)
                   [ind := Page (bottom cur) cur_keys (children cur),
                    li := Page (bottom left) left_keys (children left)])))
        else
          (let ks1 = list_insert (keys cur) 0 sep;
               self_keys = (keys self)[kind := last ks1]
           in
           if \<not> is_external cur then
             bind_e (getlast (children cur)) (\<lambda>lc.
               Inr (Page (bottom self) self_keys
                 ((children self)
                    [ind := Page (bottom cur) (butlast ks1)
                       (butlast (list_insert (children cur) 0 lc))])))
           else
             Inr (Page (bottom self) self_keys
               ((children self)
                  [ind := Page (bottom cur) (butlast ks1) (children cur)])))))))"

definition borrow_from_right :: "('k, 'v) Page \<Rightarrow> nat \<Rightarrow> error + ('k, 'v) Page" where
  "borrow_from_right self ind =
     bind_e (getitem (children self) (ind + 1)) (\<lambda>right.
     bind_e (getitem (children self) ind) (\<lambda>cur.
     bind_e (getitem (keys self) ind) (\<lambda>sep.
     bind_e (getitem (keys right) 0) (\<lambda>rk.
       let cur_keys = keys cur @ [sep];
           self_keys = (keys self)[ind := rk];
           right_keys = drop 1 (keys right)
       in
       if \<not> is_external cur then
         bind_e (getitem (children right) 0) (\<lambda>rc.
           Inr (Page (bottom self) self_keys
             ((children self)
                [ind := Page (bottom cur) cur_keys (children cur @ [rc]),
                 ind + 1 := Page (bottom right) right_keys (drop 1 (children right))])))
       else
         Inr (Page (bottom self) self_keys
           ((children self)
              [ind := Page (bottom cur) cur_keys (children cur),
               ind + 1 := Page (bottom right) right_keys (children right)]))))))"

text \<open>\<open>Page.remove\<close> mutates the page and returns a page: the page itself, or the merged
  child when a merge took the last key of the page. The model returns the pair of the
  page after the call and the page returned; the callers inside \<open>remove\<close> drop the
  returned page and go on with the page they called, as the source does. The first
  argument bounds the nested calls of \<open>remove\<close>.\<close>

fun remove ::
  "nat \<Rightarrow> ('k::linorder, 'v) Page \<Rightarrow> 'k \<Rightarrow> error + (('k, 'v) Page \<times> ('k, 'v) Page)" where
  "remove 0 self k = Inl RecursionError"
| "remove (Suc n) self k =
     (let left_upper_index = bisect_right (keys self) k in
      if is_external self then
        (if left_upper_index > 0 then
           bind_e (getitem (keys self) (left_upper_index - 1)) (\<lambda>e.
             if key e = k then
               bind_e (pop (keys self) (left_upper_index - 1)) (\<lambda>ks.
                 let self' = Page (bottom self) ks (children self) in Inr (self', self'))
             else Inr (self, self))
         else Inr (self, self))
      else
        (let ind = max (left_upper_index - 1) 0 in
         bind_e (getitem (keys self) ind) (\<lambda>e.
           if key e = k then
             bind_e (getitem (children self) ind) (\<lambda>pred_ch.
             bind_e (getitem (children self) (ind + 1)) (\<lambda>succ_ch.
               if length (keys pred_ch) \<ge> DEGREE then
                 bind_e (find_predecessor pred_ch) (\<lambda>kp.
                 bind_e (remove n pred_ch (key kp)) (\<lambda>(pred_ch', _).
                   let self' = Page (bottom self) ((keys self)[ind := kp])
                                 ((children self)[ind := pred_ch'])
                   in Inr (self', self')))
               else if length (keys succ_ch) \<ge> DEGREE then
                 bind_e (find_successor succ_ch) (\<lambda>ks.
                 bind_e (remove n succ_ch (key ks)) (\<lambda>(succ_ch', _).
                   let self' = Page (bottom self) ((keys self)[ind := ks])
                                 ((children self)[ind + 1 := succ_ch'])
                   in Inr (self', self')))
               else
                 bind_e (merge self ind pred_ch succ_ch) (\<lambda>(self1, merged).
                 bind_e (remove n merged k) (\<lambda>(merged', _).
                   let self' = Page (bottom self1) (keys self1)
                                 ((children self1)[ind := merged'])
                   in
                   if length (keys self') = 0 then Inr (self', merged')
                   else Inr (self', self')))))
           else
             (let needed_ch_ind = (if k > key e then ind + 1 else ind) in
              bind_e (getitem (children self) needed_ch_ind) (\<lambda>ch.
                if length (keys ch) = DEGREE - 1 then
                  (if needed_ch_ind + 1 < length (children self) \<and>
                      length (keys (children self ! (needed_ch_ind + 1))) > DEGREE - 1 then
                     bind_e (borrow_from_right self needed_ch_ind) (\<lambda>self1.
                     bind_e (remove n self1 k) (\<lambda>(self', _). Inr (self', self')))
                   else if needed_ch_ind > 0 \<and>
                      length (keys (children self ! (needed_ch_ind - 1))) > DEGREE - 1 then
                     bind_e (borrow_from_left self ind needed_ch_ind) (\<lambda>self1.
                     bind_e (remove n self1 k) (\<lambda>(self', _). Inr (self', self')))
                   else
                     bind_e (getitem (children self) ind) (\<lambda>l.
                     bind_e (getitem (children self) (ind + 1)) (\<lambda>r.
                     bind_e (merge self ind l r) (\<lambda>(self1, merged).
                     bind_e (remove n merged k) (\<lambda>(merged', _).
                       let self2 = Page (bottom self1) (keys self1)
                                     ((children self1)[ind := merged'])
                       in
                       if length (keys self2) = 0 then Inr (self2, merged')
                       else
                         bind_e (remove n self2 k) (\<lambda>(self', _). Inr (self', self')))))))
                else
                  bind_e (remove n ch k) (\<lambda>(ch', _).
                    let self' = Page (bottom self) (keys self)
                                  ((children self)[needed_ch_ind := ch'])
                    in Inr (self', self')))))))"

declare remove.simps(2) [simp del]

section \<open>The tree\<close>

record ('k, 'v) BTree =
  root :: "('k, 'v) Page"

definition BTree_init :: "('k, 'v) BTree" where
  "BTree_init = \<lparr>root = Page True [] []\<rparr>"

text \<open>\<open>nxt.close()\<close> at the end of \<open>BTree._put\<close>: class \<open>Page\<close> defines no attribute
  \<open>close\<close>, so the call raises \<open>AttributeError\<close>.\<close>

definition close :: "('k, 'v) Page \<Rightarrow> error + unit" where
  "close self = Inl AttributeError"

text \<open>\<open>BTree._put\<close>; the child \<open>nxt\<close> is mutated by the recursive call, and
  \<open>split_and_add_page\<close> is given the slot it came from.\<close>

function put :: "('k::linorder, 'v) Page \<Rightarrow> 'k \<Rightarrow> 'v \<Rightarrow> error + ('k, 'v) Page" where
  "put page k v =
     (if is_external page \<or> k \<in> set (map key (keys page)) then add_key_value page k v
      else
        bind_e (next_page page k) (\<lambda>nxt.
        bind_e (put nxt k v) (\<lambda>nxt'.
          let i = bisect_right (keys page) k;
              page1 = Page (bottom page) (keys page) ((children page)[i := nxt'])
          in
          bind_e (if is_full nxt' then split_and_add_page page1 i else Inr page1) (\<lambda>page2.
          bind_e (close nxt') (\<lambda>_. Inr page2)))))"
  by pat_completeness auto
termination
  by (relation "measure (\<lambda>(page, k, v). size page)")
     (auto simp: next_page_def dest: getitem_size)

declare put.simps [simp del]

definition BTree_add_key_value ::
  "('k::linorder, 'v) BTree \<Rightarrow> 'k \<Rightarrow> 'v \<Rightarrow> error + ('k, 'v) BTree" where
  "BTree_add_key_value t k v =
     bind_e (put (root t) k v) (\<lambda>r.
       if is_full r then
         bind_e (split r) (\<lambda>(left, k', right).
           Inr \<lparr>root = Page False [k'] [left, right]\<rparr>)
       else Inr \<lparr>root = r\<rparr>)"

definition find_key :: "('k::linorder, 'v) BTree \<Rightarrow> 'k \<Rightarrow> error + 'v list option" where
  "find_key t k = find_page (root t) k"

definition BTree_remove ::
  "nat \<Rightarrow> ('k::linorder, 'v) BTree \<Rightarrow> 'k \<Rightarrow> error + ('k, 'v) BTree" where
  "BTree_remove n t k = bind_e (remove n (root t) k) (\<lambda>(_, r). Inr \<lparr>root = r\<rparr>)"

text \<open>\<open>BTree.print_tree\<close> prints one line per level, the key list of every page of the
  level in order; the model returns the lines.\<close>

function levels :: "('k, 'v) Page list \<Rightarrow> 'k list list list" where
  "levels this_level =
     (if this_level = [] then []
      else map (\<lambda>node. map key (keys node)) this_level #
           levels (concat (map children this_level)))"
  by pat_completeness auto
termination
proof (relation "measure (\<lambda>ps. size_list size ps)")
  show "wf (measure (\<lambda>ps. size_list size ps))" by simp
next
  fix this_level :: "('k, 'v) Page list"
  have "size_list size (concat (map children ps)) + length ps \<le> size_list size ps"
    for ps :: "('k, 'v) Page list"
  proof (induction ps)
    case Nil
    show ?case by simp
  next
    case (Cons p ps)
    have "size_list size (children p) \<le> size p" by (cases p) simp
    with Cons show ?case by (simp add: size_list_append)
  qed
  from this [of this_level]
  show "this_level \<noteq> [] \<Longrightarrow> (concat (map children this_level), this_level)
      \<in> measure (\<lambda>ps. size_list size ps)"
    by (cases this_level) simp_all
qed

declare levels.simps [simp del]

definition print_tree :: "('k, 'v) BTree \<Rightarrow> 'k list list list" where
  "print_tree t = levels [root t]"

section \<open>Replaying operations\<close>

text \<open>The test driver at the end of the source calls \<open>add_key_value\<close> and \<open>remove\<close> of
  one tree in a loop; \<open>replay\<close> is that loop over a given list of actions. It stops at
  the first exception, as the driver does. The first argument is the bound on the nested
  calls of \<open>Page.remove\<close>.\<close>

datatype ('k, 'v) action = Add 'k 'v | Delete 'k

fun replay :: "nat \<Rightarrow> ('k::linorder, 'v) BTree \<Rightarrow> ('k, 'v) action list \<Rightarrow> error + ('k, 'v) BTree" where
  "replay n t [] = Inr t"
| "replay n t (Add k v # as) = bind_e (BTree_add_key_value t k v) (\<lambda>t'. replay n t' as)"
| "replay n t (Delete k # as) = bind_e (BTree_remove n t k) (\<lambda>t'. replay n t' as)"

text \<open>Inputs of the examples: the first \<open>n\<close> keys \<open>1, 2, \<dots>\<close> in ascending order, each
  with its own number as value; the leaf that holds them; the full leaf of 31 keys.\<close>

definition ascending :: "nat \<Rightarrow> (int, nat) action list" where
  "ascending n = map (\<lambda>i. Add (int i) i) [1..<Suc n]"

definition leaf_upto :: "nat \<Rightarrow> (int, nat) BTree" where
  "leaf_upto n = \<lparr>root = Page True (map (\<lambda>i. SmartKey (int i) [i]) [1..<Suc n]) []\<rparr>"

definition full_leaf :: "(int, nat) Page" where
  "full_leaf = Page True (map (\<lambda>i. SmartKey (int i) [i]) [1..<32]) []"

section \<open>The invariants of the data model\<close>

text \<open>The entries of a list are strictly increasing by key; in particular no key occurs
  twice.\<close>

definition sorted_keys :: "('k::linorder, 'v) SmartKey list \<Rightarrow> bool" where
  "sorted_keys es = sorted_wrt (<) (map key es)"

text \<open>The entries of a subtree in key order: the entries of the first child, the first
  key, the entries of the second child, and so on; a leaf gives its keys.\<close>

fun weave :: "'a list list \<Rightarrow> 'a list \<Rightarrow> 'a list" where
  "weave [] ks = ks"
| "weave (c # cs) [] = c"
| "weave (c # cs) (k # ks) = c @ k # weave cs ks"

fun inorder :: "('k, 'v) Page \<Rightarrow> ('k, 'v) SmartKey list" where
  "inorder (Page b ks cs) = weave (map inorder cs) ks"

text \<open>The shape of a subtree of height \<open>h\<close>: a leaf has no children; an internal page has
  at least one key and one child more than it has keys, and every child is a subtree
  of height \<open>h - 1\<close> that holds at least \<open>DEGREE - 1\<close> keys. So all leaves are at the
  same depth, and only the page at the top may hold fewer than \<open>DEGREE - 1\<close> keys. The
  upper bound of \<open>2 * DEGREE - 1\<close> keys is not part of it: no proof below needs it.\<close>

fun bt :: "nat \<Rightarrow> ('k, 'v) Page \<Rightarrow> bool" where
  "bt 0 p = (bottom p \<and> children p = [])"
| "bt (Suc h) p =
     (\<not> bottom p \<and> keys p \<noteq> [] \<and> length (children p) = Suc (length (keys p)) \<and>
      (\<forall>c\<in>set (children p). DEGREE - 1 \<le> length (keys c) \<and> bt h c))"

fun height :: "('k, 'v) Page \<Rightarrow> nat" where
  "height (Page b ks cs) = (case cs of [] \<Rightarrow> 0 | c # _ \<Rightarrow> Suc (height c))"

text \<open>A tree is well formed when its root has the shape of a subtree, of the height that
  its leftmost path gives, and its entries are strictly increasing in key order, which
  says that every child holds the keys between the two keys around it.\<close>

definition btree_ok :: "('k::linorder, 'v) BTree \<Rightarrow> bool" where
  "btree_ok t = (bt (height (root t)) (root t) \<and> sorted_keys (inorder (root t)))"

text \<open>What a list of entries holds under a key, and the list without a key.\<close>

definition lookup :: "('k, 'v) SmartKey list \<Rightarrow> 'k \<Rightarrow> 'v list option" where
  "lookup es k = map_of (map (\<lambda>e. (key e, val e)) es) k"

definition del :: "'k \<Rightarrow> ('k, 'v) SmartKey list \<Rightarrow> ('k, 'v) SmartKey list" where
  "del k es = filter (\<lambda>e. key e \<noteq> k) es"

section \<open>Notions of the proofs\<close>

text \<open>The entries of a page in key order before its child \<open>i\<close> and after it.\<close>

definition lpart :: "'a list list \<Rightarrow> 'a list \<Rightarrow> nat \<Rightarrow> 'a list" where
  "lpart css ks i = concat (map (\<lambda>(c, k). c @ [k]) (zip (take i css) (take i ks)))"

definition rpart :: "'a list list \<Rightarrow> 'a list \<Rightarrow> nat \<Rightarrow> 'a list" where
  "rpart css ks i = concat (map (\<lambda>(k, c). k # c) (zip (drop i ks) (drop (Suc i) css)))"

definition before :: "('k, 'v) Page \<Rightarrow> nat \<Rightarrow> ('k, 'v) SmartKey list" where
  "before p i = lpart (map inorder (children p)) (keys p) i"

definition after :: "('k, 'v) Page \<Rightarrow> nat \<Rightarrow> ('k, 'v) SmartKey list" where
  "after p i = rpart (map inorder (children p)) (keys p) i"

text \<open>The two children after a borrow: the child that took an entry and the sibling that
  gave one; \<open>b\<close> is the leaf flag of the child that took.\<close>

definition take_last :: "('k, 'v) Page \<Rightarrow> ('k, 'v) SmartKey \<Rightarrow> ('k, 'v) Page \<Rightarrow> ('k, 'v) Page" where
  "take_last c s x =
     Page (bottom c) (keys c @ [s])
       (if bottom c then children c else children c @ [hd (children x)])"

definition give_first :: "bool \<Rightarrow> ('k, 'v) Page \<Rightarrow> ('k, 'v) Page" where
  "give_first b x =
     Page (bottom x) (tl (keys x)) (if b then children x else tl (children x))"

definition take_first :: "('k, 'v) Page \<Rightarrow> ('k, 'v) SmartKey \<Rightarrow> ('k, 'v) Page \<Rightarrow> ('k, 'v) Page" where
  "take_first c s x =
     Page (bottom c) (s # keys c)
       (if bottom c then children c else last (children x) # children c)"

definition give_last :: "bool \<Rightarrow> ('k, 'v) Page \<Rightarrow> ('k, 'v) Page" where
  "give_last b x =
     Page (bottom x) (butlast (keys x)) (if b then children x else butlast (children x))"

text \<open>What a call of \<open>remove\<close> on a page of height \<open>h\<close> has to deliver: the pair of the
  page and the page returned, the entries of the returned page being those of the page
  without the key. Either the page itself is returned, still of height \<open>h\<close> and with at
  most one entry less, or the page had a single entry and the merged child, of height
  \<open>h - 1\<close>, is returned.\<close>

definition removed ::
  "nat \<Rightarrow> ('k, 'v) Page \<Rightarrow> 'k \<Rightarrow> error + (('k, 'v) Page \<times> ('k, 'v) Page) \<Rightarrow> bool" where
  "removed h p k res =
     (case res of
        Inl _ \<Rightarrow> False
      | Inr (p', q) \<Rightarrow>
          inorder q = del k (inorder p) \<and>
          ((q = p' \<and> bt h q \<and> length (keys p) \<le> Suc (length (keys q))) \<or>
           (length (keys p) = 1 \<and> 0 < h \<and> bt (h - 1) q \<and> DEGREE - 1 \<le> length (keys q))))"

text \<open>A result is below another when, if it is a value, the other is the same value.\<close>

definition le_res :: "error + 'a \<Rightarrow> error + 'a \<Rightarrow> bool" where
  "le_res x y = (\<forall>r. x = Inr r \<longrightarrow> y = Inr r)"

section \<open>The reference dictionary\<close>

text \<open>\<open>NaiveTreeIndex\<close>, the dictionary that the test driver of the source runs beside
  the tree: \<open>add_key_value\<close>, \<open>remove\<close>, and \<open>find\<close>, which is the dictionary itself.\<close>

definition naive_add :: "('k \<rightharpoonup> 'v list) \<Rightarrow> 'k \<Rightarrow> 'v \<Rightarrow> ('k \<rightharpoonup> 'v list)" where
  "naive_add tree k v =
     (if k \<in> dom tree then tree(k \<mapsto> the (tree k) @ [v]) else tree(k \<mapsto> [v]))"

definition naive_remove :: "('k \<rightharpoonup> 'v list) \<Rightarrow> 'k \<Rightarrow> ('k \<rightharpoonup> 'v list)" where
  "naive_remove tree k = (if k \<in> dom tree then tree(k := None) else tree)"

fun naive_replay :: "('k \<rightharpoonup> 'v list) \<Rightarrow> ('k, 'v) action list \<Rightarrow> ('k \<rightharpoonup> 'v list)" where
  "naive_replay tree [] = tree"
| "naive_replay tree (Add k v # as) = naive_replay (naive_add tree k v) as"
| "naive_replay tree (Delete k # as) = naive_replay (naive_remove tree k) as"

text \<open>The values added under a key by a list of actions, in the order of the list.\<close>

fun added :: "'k \<Rightarrow> ('k, 'v) action list \<Rightarrow> 'v list" where
  "added k [] = []"
| "added k (Add k' v # as) = (if k' = k then v # added k as else added k as)"
| "added k (Delete k' # as) = added k as"

section \<open>Trees of the examples\<close>

text \<open>The entry of the key \<open>i\<close> with the value \<open>i\<close>; a root with the keys 16 and 33 over
  leaves of 15, 16 and 15 entries; a root with the key 16 over two leaves of 15 entries,
  which is the tree after adding the keys 1 to 31 in ascending order; the actions of the
  scenario with the keys 13, 8, 3, 2, 5, 1, 1.\<close>

definition entry :: "nat \<Rightarrow> (int, nat) SmartKey" where
  "entry i = SmartKey (int i) [i]"

definition three_leaves :: "(int, nat) BTree" where
  "three_leaves =
     \<lparr>root = Page False [entry 16, entry 33]
        [Page True (map entry [1..<16]) [],
         Page True (map entry [17..<33]) [],
         Page True (map entry [34..<49]) []]\<rparr>"

definition two_leaves :: "(int, nat) BTree" where
  "two_leaves =
     \<lparr>root = Page False [entry 16]
        [Page True (map entry [1..<16]) [], Page True (map entry [17..<32]) []]\<rparr>"

definition scenario :: "(int, nat) action list" where
  "scenario = [Add 13 0, Add 8 1, Add 3 2, Add 2 3, Add 5 4, Add 1 5, Add 1 6]"

text \<open>Trees with two levels below the root, for removals that meet internal children:
  the entry of the key \<open>i\<close> with the value \<open>i\<close>; a leaf with the 15 keys after \<open>a\<close>; an
  internal page over \<open>m\<close> such leaves, with the keys \<open>a + 16\<close>, \<open>a + 32\<close>, \<dots> between
  them; a root that holds the key \<open>16 * m1\<close> over an internal page of \<open>m1\<close> leaves and one
  of \<open>m2\<close> leaves.\<close>

definition item :: "int \<Rightarrow> (int, int) SmartKey" where
  "item i = SmartKey i [i]"

definition leaf_from :: "int \<Rightarrow> (int, int) Page" where
  "leaf_from a = Page True (map item [a + 1..a + 15]) []"

definition node_from :: "int \<Rightarrow> int \<Rightarrow> (int, int) Page" where
  "node_from a m =
     Page False (map (\<lambda>j. item (a + 16 * j)) [1..m - 1])
       (map (\<lambda>j. leaf_from (a + 16 * j)) [0..m - 1])"

definition two_levels :: "int \<Rightarrow> int \<Rightarrow> (int, int) BTree" where
  "two_levels m1 m2 =
     \<lparr>root = Page False [item (16 * m1)] [node_from 0 m1, node_from (16 * m1) m2]\<rparr>"

section \<open>Basic facts\<close>

lemma bind_e_Inl [simp]: "bind_e (Inl e) f = Inl e"
  by (simp add: bind_e_def)

lemma bind_e_Inr [simp]: "bind_e (Inr x) f = f x"
  by (simp add: bind_e_def)

lemma bind_e_eq_Inr: "bind_e m f = Inr y \<longleftrightarrow> (\<exists>x. m = Inr x \<and> f x = Inr y)"
  by (cases m) simp_all

lemma bisect_right_Nil [simp]: "bisect_right [] k = 0"
  by (simp add: bisect_right_def bisect_loop.simps)

lemma DEGREE_pos: "0 < DEGREE"
  by (simp add: DEGREE_def)

lemma split_full:
  assumes "is_full self"
  shows "split self =
           Inr (Page (bottom self) (take (DEGREE - 1) (keys self)) (take DEGREE (children self)),
                keys self ! (DEGREE - 1),
                Page (bottom self) (drop DEGREE (keys self)) (drop DEGREE (children self)))"
proof -
  from assms have "length (keys self) = DEGREE * 2 - 1" by (simp add: is_full_def)
  then have "DEGREE - 1 < length (keys self)" using DEGREE_pos by linarith
  then show ?thesis by (simp add: split_def getitem_def)
qed

lemma put_Inr:
  assumes "put p k v = Inr r"
  shows "(is_external p \<or> k \<in> set (map key (keys p))) \<and> add_key_value p k v = Inr r"
proof (cases "is_external p \<or> k \<in> set (map key (keys p))")
  case True
  with assms show ?thesis by (simp add: put.simps)
next
  case False
  then have "put p k v = bind_e (next_page p k) (\<lambda>nxt.
        bind_e (put nxt k v) (\<lambda>nxt'.
          let i = bisect_right (keys p) k;
              page1 = Page (bottom p) (keys p) ((children p)[i := nxt'])
          in
          bind_e (if is_full nxt' then split_and_add_page page1 i else Inr page1) (\<lambda>page2.
          bind_e (close nxt') (\<lambda>_. Inr page2))))"
    by (subst put.simps) simp
  with assms show ?thesis
    by (auto simp: bind_e_eq_Inr close_def Let_def)
qed

lemma add_key_value_frame:
  "add_key_value p k v = Inr r \<Longrightarrow> children r = children p \<and> bottom r = bottom p"
  by (auto simp: add_key_value_def Let_def bind_e_eq_Inr split: if_splits)

lemma levels_Nil [simp]: "levels [] = []"
  by (simp add: levels.simps)

lemma levels_Cons:
  "levels (p # ps) = map (\<lambda>node. map key (keys node)) (p # ps) #
           levels (concat (map children (p # ps)))"
  by (subst levels.simps) simp

subsection \<open>Bisection\<close>

lemma bisect_loop_append:
  "a = xs @ ys \<Longrightarrow> \<forall>e\<in>set xs. key e \<le> x \<Longrightarrow> \<forall>e\<in>set ys. x < key e \<Longrightarrow>
   lo \<le> length xs \<Longrightarrow> length xs \<le> hi \<Longrightarrow> hi \<le> length a \<Longrightarrow>
   bisect_loop a x lo hi = length xs"
proof (induction a x lo hi rule: bisect_loop.induct)
  case (1 a x lo hi)
  show ?case
  proof (cases "lo < hi")
    case False
    with "1.prems" show ?thesis by (simp add: bisect_loop.simps)
  next
    case True
    define mid where "mid = (lo + hi) div 2"
    have mid: "lo \<le> mid" "mid < hi" using True by (simp_all add: mid_def)
    show ?thesis
    proof (cases "x < key (a ! mid)")
      case lt: True
      have "length xs \<le> mid"
      proof (rule ccontr)
        assume "\<not> length xs \<le> mid"
        then have "a ! mid \<in> set xs" using "1.prems"(1) by (simp add: nth_append)
        with "1.prems"(2) have "key (a ! mid) \<le> x" by blast
        with lt show False by simp
      qed
      with "1.IH"(1) [OF True mid_def lt] "1.prems" mid
      have "bisect_loop a x lo mid = length xs" by simp
      then show ?thesis using True lt by (subst bisect_loop.simps) (simp add: mid_def Let_def)
    next
      case ge: False
      have "mid < length xs"
      proof (rule ccontr)
        assume n: "\<not> mid < length xs"
        then have "a ! mid = ys ! (mid - length xs)" using "1.prems"(1) by (simp add: nth_append)
        moreover have "mid - length xs < length ys" using n mid "1.prems" by simp
        ultimately have "a ! mid \<in> set ys" by simp
        with "1.prems"(3) ge show False by blast
      qed
      with "1.IH"(2) [OF True mid_def ge] "1.prems" mid
      have "bisect_loop a x (mid + 1) hi = length xs" by simp
      then show ?thesis using True ge by (subst bisect_loop.simps) (simp add: mid_def Let_def)
    qed
  qed
qed

lemma bisect_right_append:
  "\<forall>e\<in>set xs. key e \<le> x \<Longrightarrow> \<forall>e\<in>set ys. x < key e \<Longrightarrow> bisect_right (xs @ ys) x = length xs"
  unfolding bisect_right_def by (rule bisect_loop_append [OF refl]) simp_all

lemma sorted_keys_append:
  "sorted_keys (xs @ ys) \<longleftrightarrow>
     sorted_keys xs \<and> sorted_keys ys \<and> (\<forall>a\<in>set xs. \<forall>b\<in>set ys. key a < key b)"
  by (auto simp: sorted_keys_def sorted_wrt_append)

lemma sorted_keys_Cons:
  "sorted_keys (e # es) \<longleftrightarrow> sorted_keys es \<and> (\<forall>b\<in>set es. key e < key b)"
  by (auto simp: sorted_keys_def)

lemma sorted_keys_Nil [simp]: "sorted_keys []"
  by (simp add: sorted_keys_def)

text \<open>On a sorted list the bisection index cuts the list into the keys up to \<open>x\<close> and the
  keys above it.\<close>

lemma bisect_right_sorted:
  assumes "sorted_keys a"
  shows "bisect_right a x = length (takeWhile (\<lambda>e. key e \<le> x) a)"
proof -
  let ?P = "\<lambda>e. key e \<le> x"
  have "x < key e" if e: "e \<in> set (dropWhile ?P a)" for e
  proof -
    from e obtain d ds where Cons: "dropWhile ?P a = d # ds"
      by (cases "dropWhile ?P a") auto
    then have d: "\<not> ?P d" using hd_dropWhile [of ?P a] by force
    from assms have "sorted_keys (takeWhile ?P a @ dropWhile ?P a)" by simp
    then have "sorted_keys (d # ds)" using Cons by (simp add: sorted_keys_append)
    then have "\<forall>b\<in>set ds. key d < key b" by (simp add: sorted_keys_Cons)
    with d Cons e show ?thesis by auto
  qed
  then have "\<forall>e\<in>set (dropWhile ?P a). x < key e" by blast
  moreover have "\<forall>e\<in>set (takeWhile ?P a). key e \<le> x" by (auto dest: set_takeWhileD)
  ultimately have "bisect_right (takeWhile ?P a @ dropWhile ?P a) x = length (takeWhile ?P a)"
    by (intro bisect_right_append)
  then show ?thesis by simp
qed

lemma bisect_right_le: "sorted_keys a \<Longrightarrow> bisect_right a x \<le> length a"
  by (simp add: bisect_right_sorted length_takeWhile_le)

lemma bisect_right_below:
  "sorted_keys a \<Longrightarrow> i < bisect_right a x \<Longrightarrow> key (a ! i) \<le> x"
  by (metis bisect_right_sorted nth_mem set_takeWhileD takeWhile_nth)

lemma bisect_right_above:
  assumes "sorted_keys a" and "bisect_right a x \<le> i" and "i < length a"
  shows "x < key (a ! i)"
proof -
  let ?P = "\<lambda>e. key e \<le> x"
  let ?r = "bisect_right a x"
  have r: "?r = length (takeWhile ?P a)" using assms(1) by (rule bisect_right_sorted)
  then have "?r < length a" using assms by simp
  then have "\<not> ?P (a ! ?r)" unfolding r by (rule nth_length_takeWhile)
  moreover have "key (a ! ?r) \<le> key (a ! i)"
  proof (cases "?r = i")
    case False
    then have "?r < i" using assms(2) by simp
    moreover have "sorted_wrt (<) (map key a)" using assms(1) by (simp add: sorted_keys_def)
    ultimately have "map key a ! ?r < map key a ! i"
      using assms(3) by (intro sorted_wrt_nth_less) simp_all
    then have "key (a ! ?r) < key (a ! i)" using assms(3) \<open>?r < i\<close> by simp
    then show ?thesis by simp
  qed simp
  ultimately show ?thesis by simp
qed

lemma bisect_take:
  "sorted_keys a \<Longrightarrow> e \<in> set (take (bisect_right a x) a) \<Longrightarrow> key e \<le> x"
  by (auto simp: in_set_conv_nth bisect_right_below)

lemma bisect_drop:
  "sorted_keys a \<Longrightarrow> e \<in> set (drop (bisect_right a x) a) \<Longrightarrow> x < key e"
  by (auto simp: in_set_conv_nth bisect_right_above)

lemma sorted_keys_distinct: "sorted_keys a \<Longrightarrow> distinct (map key a)"
  by (simp add: sorted_keys_def strict_sorted_iff)

lemma sorted_keys_nth_eq:
  "sorted_keys a \<Longrightarrow> i < length a \<Longrightarrow> j < length a \<Longrightarrow> key (a ! i) = key (a ! j) \<Longrightarrow> i = j"
  using sorted_keys_distinct [of a] nth_eq_iff_index_eq [of "map key a" i j] by simp

lemma sorted_keys_nth_less:
  "sorted_keys a \<Longrightarrow> i < j \<Longrightarrow> j < length a \<Longrightarrow> key (a ! i) < key (a ! j)"
  using sorted_wrt_nth_less [of "(<)" "map key a" i j] by (simp add: sorted_keys_def)

text \<open>The entry below the bisection index is the only one that can hold the key.\<close>

lemma bisect_found:
  assumes "sorted_keys a" and "e \<in> set a" and "key e = x"
  shows "0 < bisect_right a x \<and> a ! (bisect_right a x - 1) = e"
proof -
  let ?r = "bisect_right a x"
  from assms(2) obtain j where j: "j < length a" "a ! j = e" by (auto simp: in_set_conv_nth)
  have jr: "j < ?r"
  proof (rule ccontr)
    assume "\<not> j < ?r"
    then have "x < key (a ! j)" using assms(1) j(1) by (intro bisect_right_above) simp_all
    with j assms(3) show False by simp
  qed
  have "j = ?r - 1"
  proof (rule ccontr)
    assume "j \<noteq> ?r - 1"
    with jr have lt: "j < ?r - 1" by simp
    have rl: "?r - 1 < length a" using bisect_right_le [OF assms(1), of x] jr by simp
    have "key (a ! j) < key (a ! (?r - 1))"
      using assms(1) lt rl by (rule sorted_keys_nth_less)
    moreover have "key (a ! (?r - 1)) \<le> x" using assms(1) jr by (intro bisect_right_below) simp_all
    ultimately show False using j assms(3) by simp
  qed
  with j jr show ?thesis by simp
qed

lemma bisect_not_found:
  assumes "sorted_keys a" and "x \<notin> key ` set a" and "e \<in> set (take (bisect_right a x) a)"
  shows "key e < x"
proof -
  have "key e \<le> x" using assms(1,3) by (rule bisect_take)
  moreover have "e \<in> set a" using assms(3) by (rule in_set_takeD)
  ultimately show ?thesis using assms(2) by force
qed

subsection \<open>Entries in key order\<close>

lemma inorder_sel: "inorder p = weave (map inorder (children p)) (keys p)"
  by (cases p) simp

lemma lpart_0 [simp]: "lpart css ks 0 = []"
  by (simp add: lpart_def)

lemma rpart_end [simp]: "length ks \<le> i \<Longrightarrow> rpart css ks i = []"
  by (simp add: rpart_def)

lemma lpart_Suc:
  "i < length ks \<Longrightarrow> i < length css \<Longrightarrow>
   lpart css ks (Suc i) = lpart css ks i @ css ! i @ [ks ! i]"
  by (simp add: lpart_def take_Suc_conv_app_nth)

lemma rpart_unfold:
  "i < length ks \<Longrightarrow> Suc i < length css \<Longrightarrow>
   rpart css ks i = ks ! i # css ! Suc i @ rpart css ks (Suc i)"
  by (simp add: rpart_def Cons_nth_drop_Suc [symmetric])

lemma lpart_cong:
  "take i css = take i css' \<Longrightarrow> take i ks = take i ks' \<Longrightarrow> lpart css ks i = lpart css' ks' i"
  by (simp add: lpart_def)

lemma rpart_cong:
  "drop i ks = drop j ks' \<Longrightarrow> drop (Suc i) css = drop (Suc j) css' \<Longrightarrow>
   rpart css ks i = rpart css' ks' j"
  by (simp add: rpart_def)

lemma weave_split:
  "length css = Suc (length ks) \<Longrightarrow> i \<le> length ks \<Longrightarrow>
   weave css ks = lpart css ks i @ css ! i @ rpart css ks i"
proof (induction css ks arbitrary: i rule: weave.induct)
  case (1 ks)
  then show ?case by simp
next
  case (2 c cs)
  then show ?case by (simp add: rpart_def)
next
  case (3 c cs k ks)
  show ?case
  proof (cases i)
    case 0
    from "3.prems" obtain c' cs' where cs: "cs = c' # cs'" by (cases cs) auto
    from "3.IH" [of 0] "3.prems" have "weave cs ks = cs ! 0 @ rpart cs ks 0" by simp
    then show ?thesis using 0 cs by (simp add: rpart_def)
  next
    case (Suc j)
    with "3.IH" [of j] "3.prems"
    have "weave cs ks = lpart cs ks j @ cs ! j @ rpart cs ks j" by simp
    then show ?thesis using Suc by (simp add: lpart_def rpart_def)
  qed
qed

lemma set_weave_keys: "set ks \<subseteq> set (weave css ks)"
  by (induction css ks rule: weave.induct) auto

lemma sorted_keys_weave: "sorted_keys (weave css ks) \<Longrightarrow> sorted_keys ks"
proof (induction css ks rule: weave.induct)
  case (3 c cs k ks)
  then have "sorted_keys (k # weave cs ks)" by (simp add: sorted_keys_append)
  then have "sorted_keys (weave cs ks)" "\<forall>b\<in>set (weave cs ks). key k < key b"
    by (simp_all add: sorted_keys_Cons)
  with "3.IH" set_weave_keys [of ks cs] show ?case by (auto simp: sorted_keys_Cons)
qed simp_all

subsection \<open>Looking up in a list of entries\<close>

lemma lookup_Nil [simp]: "lookup [] k = None"
  by (simp add: lookup_def)

lemma lookup_None_iff: "lookup es k = None \<longleftrightarrow> k \<notin> key ` set es"
  by (simp add: lookup_def map_of_eq_None_iff image_image)

lemma lookup_append:
  "lookup (xs @ ys) k = (case lookup xs k of None \<Rightarrow> lookup ys k | Some v \<Rightarrow> Some v)"
  by (simp add: lookup_def map_add_def split: option.split)

lemma lookup_append_left: "k \<notin> key ` set ys \<Longrightarrow> lookup (xs @ ys) k = lookup xs k"
  using lookup_None_iff [of ys k] by (simp add: lookup_append split: option.split)

lemma lookup_append_right: "k \<notin> key ` set xs \<Longrightarrow> lookup (xs @ ys) k = lookup ys k"
  using lookup_None_iff [of xs k] by (simp add: lookup_append)

lemma lookup_mem:
  assumes "sorted_keys es" and "e \<in> set es"
  shows "lookup es (key e) = Some (val e)"
proof -
  have "distinct (map fst (map (\<lambda>e. (key e, val e)) es))"
    using sorted_keys_distinct [OF assms(1)] by (simp add: comp_def)
  moreover have "(key e, val e) \<in> set (map (\<lambda>e. (key e, val e)) es)" using assms(2) by auto
  ultimately show ?thesis unfolding lookup_def by (rule map_of_is_SomeI)
qed

subsection \<open>The entries around a child\<close>

lemma inorder_leaf: "children p = [] \<Longrightarrow> inorder p = keys p"
  by (cases p) simp

lemma inorder_split:
  "length (children p) = Suc (length (keys p)) \<Longrightarrow> i \<le> length (keys p) \<Longrightarrow>
   inorder p = before p i @ inorder (children p ! i) @ after p i"
  using weave_split [of "map inorder (children p)" "keys p" i]
  by (simp add: inorder_sel [of p] before_def after_def)

lemma before_0 [simp]: "before p 0 = []"
  by (simp add: before_def)

lemma after_end [simp]: "length (keys p) \<le> i \<Longrightarrow> after p i = []"
  by (simp add: after_def)

lemma before_Suc:
  "i < length (keys p) \<Longrightarrow> i < length (children p) \<Longrightarrow>
   before p (Suc i) = before p i @ inorder (children p ! i) @ [keys p ! i]"
  by (simp add: before_def lpart_Suc)

lemma after_unfold:
  "i < length (keys p) \<Longrightarrow> Suc i < length (children p) \<Longrightarrow>
   after p i = keys p ! i # inorder (children p ! Suc i) @ after p (Suc i)"
  by (simp add: after_def rpart_unfold)

lemma inorder_window:
  assumes "length (children p) = Suc (length (keys p))" and "i < length (keys p)"
  shows "inorder p = before p i @ inorder (children p ! i) @ keys p ! i #
                       inorder (children p ! Suc i) @ after p (Suc i)"
  using inorder_split [OF assms(1), of i] after_unfold [of i p] assms by simp

lemma sorted_keys_page:
  "sorted_keys (inorder p) \<Longrightarrow> sorted_keys (keys p)"
  using sorted_keys_weave [of "map inorder (children p)" "keys p"] by (simp add: inorder_sel [of p])

text \<open>Around the bisection index of a key that the page does not hold, everything to the
  left is below the key and everything to the right is above it.\<close>

lemma before_below:
  assumes len: "length (children p) = Suc (length (keys p))"
    and srt: "sorted_keys (inorder p)"
    and nf: "k \<notin> key ` set (keys p)"
    and e: "e \<in> set (before p (bisect_right (keys p) k))"
  shows "key e < k"
proof -
  let ?r = "bisect_right (keys p) k"
  have sk: "sorted_keys (keys p)" using srt by (rule sorted_keys_page)
  have rle: "?r \<le> length (keys p)" using sk by (rule bisect_right_le)
  show ?thesis
  proof (cases ?r)
    case 0
    with e show ?thesis by simp
  next
    case (Suc j)
    then have j: "j < length (keys p)" "j < length (children p)" using rle len by simp_all
    have le: "key (keys p ! j) \<le> k" using sk Suc by (intro bisect_right_below) simp_all
    have "keys p ! j \<in> set (keys p)" using j by simp
    with nf have "key (keys p ! j) \<noteq> k" by blast
    with le have lt: "key (keys p ! j) < k" by simp
    have "inorder p = (before p j @ inorder (children p ! j)) @ keys p ! j #
                       inorder (children p ! Suc j) @ after p (Suc j)"
      using inorder_window [OF len j(1)] by simp
    with srt have "\<forall>a\<in>set (before p j @ inorder (children p ! j)). key a < key (keys p ! j)"
      by (auto simp: sorted_keys_append)
    moreover have "e \<in> set (before p j @ inorder (children p ! j) @ [keys p ! j])"
      using e Suc before_Suc [OF j] by simp
    ultimately have "key e \<le> key (keys p ! j)" by (auto intro: less_imp_le)
    with lt show ?thesis by simp
  qed
qed

lemma after_above:
  assumes len: "length (children p) = Suc (length (keys p))"
    and srt: "sorted_keys (inorder p)"
    and e: "e \<in> set (after p (bisect_right (keys p) k))"
  shows "k < key e"
proof -
  let ?r = "bisect_right (keys p) k"
  have sk: "sorted_keys (keys p)" using srt by (rule sorted_keys_page)
  have rle: "?r \<le> length (keys p)" using sk by (rule bisect_right_le)
  show ?thesis
  proof (cases "?r < length (keys p)")
    case False
    with e show ?thesis by simp
  next
    case True
    have gt: "k < key (keys p ! ?r)" using sk True by (intro bisect_right_above) simp_all
    have "inorder p = (before p ?r @ inorder (children p ! ?r)) @ keys p ! ?r #
                       inorder (children p ! Suc ?r) @ after p (Suc ?r)"
      using inorder_window [OF len True] by simp
    with srt have "sorted_keys (keys p ! ?r # inorder (children p ! Suc ?r) @ after p (Suc ?r))"
      by (simp add: sorted_keys_append)
    then have "\<forall>b\<in>set (inorder (children p ! Suc ?r) @ after p (Suc ?r)).
        key (keys p ! ?r) < key b"
      by (simp add: sorted_keys_Cons)
    moreover have "e \<in> set (keys p ! ?r # inorder (children p ! Suc ?r) @ after p (Suc ?r))"
      using e after_unfold [of ?r p] True len by simp
    ultimately have "key (keys p ! ?r) \<le> key e" by (auto intro: less_imp_le)
    with gt show ?thesis by simp
  qed
qed

subsection \<open>Finding a key\<close>

lemma child_sorted:
  assumes "length (children p) = Suc (length (keys p))" and "sorted_keys (inorder p)"
    and "i \<le> length (keys p)"
  shows "sorted_keys (inorder (children p ! i))"
  using assms(2) inorder_split [OF assms(1,3)] by (simp add: sorted_keys_append)

lemma lookup_child:
  assumes len: "length (children p) = Suc (length (keys p))"
    and srt: "sorted_keys (inorder p)"
    and nf: "k \<notin> key ` set (keys p)"
  shows "lookup (inorder p) k = lookup (inorder (children p ! bisect_right (keys p) k)) k"
proof -
  let ?r = "bisect_right (keys p) k"
  have "?r \<le> length (keys p)" using srt by (intro bisect_right_le sorted_keys_page)
  then have "inorder p = before p ?r @ inorder (children p ! ?r) @ after p ?r"
    using len by (intro inorder_split)
  moreover have "k \<notin> key ` set (before p ?r)" using before_below [OF len srt nf] by force
  moreover have "k \<notin> key ` set (after p ?r)" using after_above [OF len srt] by force
  ultimately show ?thesis by (simp add: lookup_append_left lookup_append_right)
qed

lemma find_page_lookup:
  "bt h p \<Longrightarrow> sorted_keys (inorder p) \<Longrightarrow> find_page p k = Inr (lookup (inorder p) k)"
proof (induction h arbitrary: p)
  case 0
  let ?r = "bisect_right (keys p) k"
  from 0 have leaf: "bottom p" "children p = []" by simp_all
  then have io: "inorder p = keys p" by (simp add: inorder_leaf)
  with 0 have sk: "sorted_keys (keys p)" by simp
  have rle: "?r \<le> length (keys p)" using sk by (rule bisect_right_le)
  show ?case
  proof (cases "k \<in> key ` set (keys p)")
    case True
    then obtain e where e: "e \<in> set (keys p)" "key e = k" by auto
    from bisect_found [OF sk e] have r: "0 < ?r" "keys p ! (?r - 1) = e" by simp_all
    have "lookup (keys p) k = Some (val e)" using lookup_mem [OF sk e(1)] e(2) by simp
    then show ?thesis using r rle e io
      by (subst find_page.simps) (simp add: getitem_def Let_def)
  next
    case False
    then have none: "lookup (keys p) k = None" by (simp add: lookup_None_iff)
    have "0 < ?r \<Longrightarrow> key (keys p ! (?r - 1)) \<noteq> k"
    proof -
      assume "0 < ?r"
      then have "keys p ! (?r - 1) \<in> set (keys p)" using rle by simp
      with False show ?thesis by force
    qed
    then show ?thesis using none io leaf rle
      by (subst find_page.simps) (auto simp: getitem_def is_external_def Let_def)
  qed
next
  case (Suc h)
  let ?r = "bisect_right (keys p) k"
  from Suc.prems have node: "\<not> bottom p" "keys p \<noteq> []"
    and len: "length (children p) = Suc (length (keys p))"
    and ch: "\<forall>c\<in>set (children p). bt h c" by simp_all
  have sk: "sorted_keys (keys p)" using Suc.prems(2) by (rule sorted_keys_page)
  have rle: "?r \<le> length (keys p)" using sk by (rule bisect_right_le)
  show ?case
  proof (cases "k \<in> key ` set (keys p)")
    case True
    then obtain e where e: "e \<in> set (keys p)" "key e = k" by auto
    from bisect_found [OF sk e] have r: "0 < ?r" "keys p ! (?r - 1) = e" by simp_all
    have "e \<in> set (inorder p)"
      using e(1) set_weave_keys [of "keys p" "map inorder (children p)"]
      by (auto simp: inorder_sel [of p])
    then have "lookup (inorder p) k = Some (val e)"
      using lookup_mem [OF Suc.prems(2)] e(2) by blast
    then show ?thesis using r rle e
      by (subst find_page.simps) (simp add: getitem_def Let_def)
  next
    case False
    have c: "children p ! ?r \<in> set (children p)" using rle len by simp
    have "sorted_keys (inorder (children p ! ?r))" using len Suc.prems(2) rle by (rule child_sorted)
    with Suc.IH [of "children p ! ?r"] c ch
    have IH: "find_page (children p ! ?r) k = Inr (lookup (inorder (children p ! ?r)) k)" by blast
    have lk: "lookup (inorder p) k = lookup (inorder (children p ! ?r)) k"
      using len Suc.prems(2) False by (rule lookup_child)
    show ?thesis
    proof (cases "?r = 0")
      case True
      have "k < key (keys p ! 0)" using sk True node by (intro bisect_right_above) simp_all
      then have "\<not> key (keys p ! 0) < k" by simp
      then show ?thesis using True IH lk node len
        by (subst find_page.simps) (simp add: getitem_def Let_def)
    next
      case nz: False
      then have lt: "?r - 1 < length (keys p)" using rle by simp
      have "keys p ! (?r - 1) \<in> set (keys p)" using lt by simp
      with False have ne: "key (keys p ! (?r - 1)) \<noteq> k" by force
      moreover have "key (keys p ! (?r - 1)) \<le> k" using sk nz by (intro bisect_right_below) simp_all
      ultimately have "key (keys p ! (?r - 1)) < k" by simp
      then show ?thesis using nz IH lk node len lt ne rle
        by (subst find_page.simps) (simp add: getitem_def is_external_def Let_def)
    qed
  qed
qed

subsection \<open>Deleting from a list of entries\<close>

lemma DEGREE_ge2: "2 \<le> DEGREE"
  by (simp add: DEGREE_def)

lemma del_Nil [simp]: "del k [] = []"
  by (simp add: del_def)

lemma del_append: "del k (xs @ ys) = del k xs @ del k ys"
  by (simp add: del_def)

lemma del_notin: "k \<notin> key ` set es \<Longrightarrow> del k es = es"
  by (auto simp: del_def filter_id_conv)

lemma del_mid:
  assumes "sorted_keys (xs @ e # ys)"
  shows "del (key e) (xs @ e # ys) = xs @ ys"
proof -
  from assms have "\<forall>a\<in>set xs. key a < key e" "\<forall>b\<in>set ys. key e < key b"
    by (auto simp: sorted_keys_append sorted_keys_Cons)
  then have "key e \<notin> key ` set xs" "key e \<notin> key ` set ys" by auto
  then have "del (key e) xs = xs" "del (key e) ys = ys" by (simp_all add: del_notin)
  moreover have "del (key e) (xs @ e # ys) = del (key e) xs @ del (key e) ys"
    by (simp add: del_def)
  ultimately show ?thesis by simp
qed

lemma del_last:
  assumes "sorted_keys es" and "es \<noteq> []"
  shows "del (key (last es)) es = butlast es"
proof -
  from assms(2) have "es = butlast es @ last es # []" by simp
  with del_mid [of "butlast es" "last es" "[]"] assms(1) show ?thesis by simp
qed

lemma del_hd:
  assumes "sorted_keys es" and "es \<noteq> []"
  shows "del (key (hd es)) es = tl es"
proof -
  from assms(2) have "es = [] @ hd es # tl es" by simp
  with del_mid [of "[]" "hd es" "tl es"] assms(1) show ?thesis by simp
qed

lemma sorted_keys_del: "sorted_keys es \<Longrightarrow> sorted_keys (del k es)"
  by (simp add: sorted_keys_def del_def sorted_wrt_map sorted_wrt_filter)

lemma del_idem [simp]: "del k (del k es) = del k es"
  by (simp add: del_def)

lemma lookup_del_same [simp]: "lookup (del k es) k = None"
  by (auto simp: lookup_None_iff del_def)

lemma lookup_del_other: "k' \<noteq> k \<Longrightarrow> lookup (del k es) k' = lookup es k'"
  by (induction es) (auto simp: lookup_def del_def)

lemma weave_append:
  "length css1 = Suc (length ks1) \<Longrightarrow>
   weave (css1 @ css2) (ks1 @ k # ks2) = weave css1 ks1 @ k # weave css2 ks2"
proof (induction css1 ks1 rule: weave.induct)
  case (2 c cs)
  then show ?case by (cases css2) simp_all
qed simp_all

lemma weave_snoc:
  "length css = Suc (length ks) \<Longrightarrow> weave (css @ [c]) (ks @ [k]) = weave css ks @ k # c"
  using weave_append [of css ks "[c]" k "[]"] by simp

lemma weave_butlast:
  assumes "length css = Suc (length ks)" and "ks \<noteq> []"
  shows "weave css ks = weave (butlast css) (butlast ks) @ last ks # last css"
proof -
  have "css \<noteq> []" using assms by auto
  then have "weave css ks = weave (butlast css @ [last css]) (butlast ks @ [last ks])"
    using assms(2) by simp
  also have "\<dots> = weave (butlast css) (butlast ks) @ last ks # last css"
    using assms by (intro weave_snoc) simp
  finally show ?thesis .
qed

lemma inorder_Page [simp]: "inorder (Page b ks cs) = weave (map inorder cs) ks"
  by simp

subsection \<open>The branches of remove\<close>

lemma bt_nonempty:
  "bt h c \<Longrightarrow> DEGREE - 1 \<le> length (keys c) \<Longrightarrow> keys c \<noteq> [] \<and> inorder c \<noteq> []"
proof -
  assume "DEGREE - 1 \<le> length (keys c)"
  then have "keys c \<noteq> []" using DEGREE_ge2 by auto
  moreover have "set (keys c) \<subseteq> set (inorder c)"
    using set_weave_keys [of "keys c" "map inorder (children c)"] by (simp add: inorder_sel [of c])
  ultimately show ?thesis by auto
qed

lemma find_predecessor_last:
  "bt h c \<Longrightarrow> DEGREE - 1 \<le> length (keys c) \<Longrightarrow> find_predecessor c = Inr (last (inorder c))"
proof (induction h arbitrary: c)
  case 0
  then have "keys c \<noteq> []" using bt_nonempty by blast
  with 0 show ?case
    by (subst find_predecessor.simps) (simp add: is_external_def getlast_def inorder_leaf)
next
  case (Suc h)
  let ?l = "last (children c)"
  from Suc.prems have len: "length (children c) = Suc (length (keys c))" and nb: "\<not> bottom c"
    and kn: "keys c \<noteq> []" by simp_all
  then have cn: "children c \<noteq> []" by auto
  then have "?l \<in> set (children c)" by simp
  with Suc.prems have l: "bt h ?l" "DEGREE - 1 \<le> length (keys ?l)" by simp_all
  from Suc.IH [OF l] have IH: "find_predecessor ?l = Inr (last (inorder ?l))" .
  have "inorder c = weave (butlast (map inorder (children c))) (butlast (keys c)) @
      last (keys c) # last (map inorder (children c))"
    unfolding inorder_sel [of c] using len kn by (intro weave_butlast) simp_all
  moreover have "last (map inorder (children c)) = inorder ?l" using cn by (simp add: last_map)
  moreover have "inorder ?l \<noteq> []" using bt_nonempty [OF l] by simp
  ultimately have "last (inorder c) = last (inorder ?l)" by simp
  with IH nb cn show ?case
    by (subst find_predecessor.simps) (simp add: is_external_def getlast_def)
qed

lemma find_successor_hd:
  "bt h c \<Longrightarrow> DEGREE - 1 \<le> length (keys c) \<Longrightarrow> find_successor c = Inr (hd (inorder c))"
proof (induction h arbitrary: c)
  case 0
  then have "keys c \<noteq> []" using bt_nonempty by blast
  with 0 show ?case
    by (subst find_successor.simps) (simp add: is_external_def getitem_def inorder_leaf hd_conv_nth)
next
  case (Suc h)
  let ?f = "children c ! 0"
  from Suc.prems have len: "length (children c) = Suc (length (keys c))" and nb: "\<not> bottom c"
    and kn: "keys c \<noteq> []" by simp_all
  then have cn: "children c \<noteq> []" by auto
  then have "?f \<in> set (children c)" by simp
  with Suc.prems have f: "bt h ?f" "DEGREE - 1 \<le> length (keys ?f)" by simp_all
  from Suc.IH [OF f] have IH: "find_successor ?f = Inr (hd (inorder ?f))" .
  have "inorder c = before c 0 @ inorder ?f @ after c 0"
    using len by (intro inorder_split) simp_all
  moreover have "inorder ?f \<noteq> []" using bt_nonempty [OF f] by simp
  ultimately have "hd (inorder c) = hd (inorder ?f)" by simp
  with IH nb cn show ?case
    by (subst find_successor.simps) (simp add: is_external_def getitem_def)
qed

lemma remove_leaf:
  assumes "bottom p" and "sorted_keys (keys p)"
  shows "remove (Suc n) p k =
           Inr (Page (bottom p) (del k (keys p)) (children p),
                Page (bottom p) (del k (keys p)) (children p))"
proof -
  let ?r = "bisect_right (keys p) k"
  have rle: "?r \<le> length (keys p)" using assms(2) by (rule bisect_right_le)
  have p: "Page (bottom p) (keys p) (children p) = p" by simp
  show ?thesis
  proof (cases "k \<in> key ` set (keys p)")
    case True
    then obtain e where e: "e \<in> set (keys p)" "key e = k" by auto
    from bisect_found [OF assms(2) e] have r: "0 < ?r" "keys p ! (?r - 1) = e" by simp_all
    have lt: "?r - 1 < length (keys p)" using r rle by simp
    have "keys p = take (?r - 1) (keys p) @ e # drop (Suc (?r - 1)) (keys p)"
      using id_take_nth_drop [OF lt] r by simp
    with del_mid [of "take (?r - 1) (keys p)" e "drop (Suc (?r - 1)) (keys p)"] assms(2) e
    have "del k (keys p) = take (?r - 1) (keys p) @ drop (Suc (?r - 1)) (keys p)" by simp
    then show ?thesis using assms(1) r lt e
      by (simp add: remove.simps(2) is_external_def getitem_def pop_def Let_def)
  next
    case False
    then have d: "del k (keys p) = keys p" by (rule del_notin)
    have "0 < ?r \<Longrightarrow> key (keys p ! (?r - 1)) \<noteq> k"
    proof -
      assume "0 < ?r"
      then have "keys p ! (?r - 1) \<in> set (keys p)" using rle by simp
      with False show ?thesis by force
    qed
    then show ?thesis using assms(1) d p rle
      by (auto simp: remove.simps(2) is_external_def getitem_def Let_def)
  qed
qed

lemma remove_found_eq:
  assumes "\<not> bottom p" and "sorted_keys (keys p)" and "e \<in> set (keys p)" and "key e = k"
    and "length (children p) = Suc (length (keys p))"
  shows "remove (Suc n) p k =
     (let i = bisect_right (keys p) k - 1;
          pred_ch = children p ! i; succ_ch = children p ! Suc i in
      if DEGREE \<le> length (keys pred_ch) then
        bind_e (find_predecessor pred_ch) (\<lambda>kp.
        bind_e (remove n pred_ch (key kp)) (\<lambda>(pred_ch', _).
          let self' = Page (bottom p) ((keys p)[i := kp]) ((children p)[i := pred_ch'])
          in Inr (self', self')))
      else if DEGREE \<le> length (keys succ_ch) then
        bind_e (find_successor succ_ch) (\<lambda>ks.
        bind_e (remove n succ_ch (key ks)) (\<lambda>(succ_ch', _).
          let self' = Page (bottom p) ((keys p)[i := ks]) ((children p)[Suc i := succ_ch'])
          in Inr (self', self')))
      else
        bind_e (merge p i pred_ch succ_ch) (\<lambda>(self1, merged).
        bind_e (remove n merged k) (\<lambda>(merged', _).
          let self' = Page (bottom self1) (keys self1) ((children self1)[i := merged'])
          in if length (keys self') = 0 then Inr (self', merged') else Inr (self', self'))))"
proof -
  let ?r = "bisect_right (keys p) k"
  have rle: "?r \<le> length (keys p)" using assms(2) by (rule bisect_right_le)
  from bisect_found [OF assms(2,3,4)] have r: "0 < ?r" "keys p ! (?r - 1) = e" by simp_all
  have lt: "?r - 1 < length (keys p)" "?r - 1 < length (children p)"
    "Suc (?r - 1) < length (children p)" using r rle assms(5) by simp_all
  show ?thesis using assms(1,4) r lt
    by (simp add: remove.simps(2) is_external_def getitem_def Let_def)
qed

lemma remove_absent_eq:
  assumes "\<not> bottom p" and "sorted_keys (keys p)" and "k \<notin> key ` set (keys p)"
    and "keys p \<noteq> []" and "length (children p) = Suc (length (keys p))"
  shows "remove (Suc n) p k =
     (let r = bisect_right (keys p) k; ch = children p ! r in
      if length (keys ch) = DEGREE - 1 then
        (if r + 1 < length (children p) \<and>
            DEGREE - 1 < length (keys (children p ! (r + 1))) then
           bind_e (borrow_from_right p r) (\<lambda>self1.
           bind_e (remove n self1 k) (\<lambda>(self', _). Inr (self', self')))
         else if 0 < r \<and> DEGREE - 1 < length (keys (children p ! (r - 1))) then
           bind_e (borrow_from_left p (r - 1) r) (\<lambda>self1.
           bind_e (remove n self1 k) (\<lambda>(self', _). Inr (self', self')))
         else
           bind_e (merge p (r - 1) (children p ! (r - 1)) (children p ! Suc (r - 1)))
             (\<lambda>(self1, merged).
           bind_e (remove n merged k) (\<lambda>(merged', _).
             let self2 = Page (bottom self1) (keys self1) ((children self1)[r - 1 := merged'])
             in
             if length (keys self2) = 0 then Inr (self2, merged')
             else bind_e (remove n self2 k) (\<lambda>(self', _). Inr (self', self')))))
      else
        bind_e (remove n ch k) (\<lambda>(ch', _).
          let self' = Page (bottom p) (keys p) ((children p)[r := ch'])
          in Inr (self', self')))"
proof -
  let ?r = "bisect_right (keys p) k"
  have rle: "?r \<le> length (keys p)" using assms(2) by (rule bisect_right_le)
  show ?thesis
  proof (cases "?r = 0")
    case True
    have "k < key (keys p ! 0)" using assms(2,4) True by (intro bisect_right_above) simp_all
    then have "key (keys p ! 0) \<noteq> k" "\<not> key (keys p ! 0) < k" by simp_all
    then show ?thesis using True assms(1,4,5)
      by (simp add: remove.simps(2) is_external_def getitem_def Let_def)
  next
    case False
    then have lt: "?r - 1 < length (keys p)" using rle by simp
    have "keys p ! (?r - 1) \<in> set (keys p)" using lt by simp
    with assms(3) have ne: "key (keys p ! (?r - 1)) \<noteq> k" by force
    moreover have "key (keys p ! (?r - 1)) \<le> k"
      using assms(2) False by (intro bisect_right_below) simp_all
    ultimately have "key (keys p ! (?r - 1)) < k" by simp
    moreover have "Suc (?r - 1) = ?r" "?r - 1 < Suc (length (keys p))"
      "?r < Suc (length (keys p))" using False rle by simp_all
    ultimately show ?thesis using False ne lt assms(1,4,5)
      by (simp add: remove.simps(2) is_external_def getitem_def Let_def del: One_nat_def)
  qed
qed

subsection \<open>Merging and borrowing\<close>

lemma before_cong:
  "take i (children p) = take i (children q) \<Longrightarrow> take i (keys p) = take i (keys q) \<Longrightarrow>
   before p i = before q i"
  unfolding before_def by (rule lpart_cong) (simp_all add: take_map)

lemma after_cong:
  "drop i (keys p) = drop j (keys q) \<Longrightarrow>
   drop (Suc i) (children p) = drop (Suc j) (children q) \<Longrightarrow> after p i = after q j"
  unfolding after_def by (rule rpart_cong) (simp_all add: drop_map)

text \<open>A page that differs from \<open>p\<close> in the child \<open>i\<close> only.\<close>

lemma inorder_child_update:
  assumes "length (children p) = Suc (length (keys p))" and "i \<le> length (keys p)"
  shows "inorder (Page b (keys p) ((children p)[i := c])) = before p i @ inorder c @ after p i"
proof -
  let ?q = "Page b (keys p) ((children p)[i := c])"
  have "inorder ?q = before ?q i @ inorder (children ?q ! i) @ after ?q i"
    using assms by (intro inorder_split) simp_all
  moreover have "before ?q i = before p i" by (rule before_cong) simp_all
  moreover have "after ?q i = after p i" by (rule after_cong) simp_all
  moreover have "children ?q ! i = c" using assms by simp
  ultimately show ?thesis by simp
qed

text \<open>A page that differs from \<open>p\<close> in the key \<open>i\<close> and the children \<open>i\<close> and \<open>i + 1\<close> only.\<close>

lemma inorder_window_update:
  assumes "length (children p) = Suc (length (keys p))" and "i < length (keys p)"
    and "length (keys q) = length (keys p)" and "length (children q) = length (children p)"
    and "take i (keys q) = take i (keys p)" and "drop (Suc i) (keys q) = drop (Suc i) (keys p)"
    and "take i (children q) = take i (children p)"
    and "drop (Suc (Suc i)) (children q) = drop (Suc (Suc i)) (children p)"
  shows "inorder q = before p i @ inorder (children q ! i) @ keys q ! i #
                       inorder (children q ! Suc i) @ after p (Suc i)"
proof -
  have "inorder q = before q i @ inorder (children q ! i) @ keys q ! i #
                       inorder (children q ! Suc i) @ after q (Suc i)"
    using assms(1-4) by (intro inorder_window) simp_all
  moreover have "before q i = before p i" using assms(5,7) by (intro before_cong) simp_all
  moreover have "after q (Suc i) = after p (Suc i)" using assms(6,8) by (intro after_cong) simp_all
  ultimately show ?thesis by simp
qed

lemma update_take_Suc:
  "i < length xs \<Longrightarrow> (take (Suc i) xs @ ys)[i := m] = take i xs @ m # ys"
  by (simp add: take_Suc_conv_app_nth list_update_append)

lemma merge_eq:
  assumes "i < length (keys p)" and "length (children p) = Suc (length (keys p))"
  shows "merge p i l r =
    Inr (Page (bottom p) (take i (keys p) @ drop (Suc i) (keys p))
           (take i (children p) @
            Page (bottom l \<and> bottom r) (keys l @ keys p ! i # keys r) (children l @ children r) #
            drop (Suc (Suc i)) (children p)),
         Page (bottom l \<and> bottom r) (keys l @ keys p ! i # keys r) (children l @ children r))"
  using assms
  by (simp add: merge_def getitem_def pop_def setitem_def is_external_def update_take_Suc Let_def)

text \<open>The page left by a merge at \<open>i\<close>, with any page \<open>m\<close> in the merged slot.\<close>

lemma inorder_merge_update:
  assumes "length (children p) = Suc (length (keys p))" and "i < length (keys p)"
  shows "inorder (Page b (take i (keys p) @ drop (Suc i) (keys p))
                   (take i (children p) @ m # drop (Suc (Suc i)) (children p))) =
         before p i @ inorder m @ after p (Suc i)"
proof -
  let ?q = "Page b (take i (keys p) @ drop (Suc i) (keys p))
                   (take i (children p) @ m # drop (Suc (Suc i)) (children p))"
  have "inorder ?q = before ?q i @ inorder (children ?q ! i) @ after ?q i"
    using assms by (intro inorder_split) simp_all
  moreover have "before ?q i = before p i" using assms by (intro before_cong) simp_all
  moreover have "after ?q i = after p (Suc i)" using assms by (intro after_cong) simp_all
  moreover have "children ?q ! i = m" using assms by (simp add: nth_append)
  ultimately show ?thesis by simp
qed

lemma inorder_merged:
  assumes "bt h l" and "bt h r"
  shows "inorder (Page (bottom l \<and> bottom r) (keys l @ s # keys r) (children l @ children r)) =
         inorder l @ s # inorder r"
proof (cases h)
  case 0
  with assms show ?thesis by (simp add: inorder_leaf)
next
  case (Suc h')
  with assms have "length (map inorder (children l)) = Suc (length (keys l))" by simp
  from weave_append [OF this, of "map inorder (children r)" s "keys r"]
  show ?thesis by (simp add: inorder_sel [of l] inorder_sel [of r])
qed

lemma bt_merged:
  assumes "bt h l" and "bt h r"
  shows "bt h (Page (bottom l \<and> bottom r) (keys l @ s # keys r) (children l @ children r))"
proof (cases h)
  case 0
  with assms show ?thesis by simp
next
  case (Suc h')
  with assms show ?thesis by auto
qed

lemma borrow_from_right_eq:
  assumes "i < length (keys p)" and "length (children p) = Suc (length (keys p))"
    and "keys (children p ! Suc i) \<noteq> []"
    and "\<not> bottom (children p ! i) \<Longrightarrow> children (children p ! Suc i) \<noteq> []"
  shows "borrow_from_right p i =
     Inr (Page (bottom p) ((keys p)[i := hd (keys (children p ! Suc i))])
            ((children p)[i := take_last (children p ! i) (keys p ! i) (children p ! Suc i),
                          Suc i := give_first (bottom (children p ! i)) (children p ! Suc i)]))"
  using assms
  by (simp add: borrow_from_right_def getitem_def is_external_def take_last_def give_first_def
      hd_conv_nth drop_Suc Let_def)

lemma borrow_from_left_eq:
  assumes "j < length (keys p)" and "length (children p) = Suc (length (keys p))"
    and "keys (children p ! j) \<noteq> []"
    and "\<not> bottom (children p ! Suc j) \<Longrightarrow> children (children p ! j) \<noteq> []"
  shows "borrow_from_left p j (Suc j) =
     Inr (Page (bottom p) ((keys p)[j := last (keys (children p ! j))])
            ((children p)[Suc j := take_first (children p ! Suc j) (keys p ! j) (children p ! j),
                          j := give_last (bottom (children p ! Suc j)) (children p ! j)]))"
  using assms
  by (simp add: borrow_from_left_def getitem_def getlast_def is_external_def take_first_def
      give_last_def list_insert_def Let_def)

lemma inorder_rotate_left:
  assumes "bt h c" and "bt h x" and "keys x \<noteq> []"
  shows "inorder (take_last c s x) @ hd (keys x) # inorder (give_first (bottom c) x) =
         inorder c @ s # inorder x"
proof (cases h)
  case 0
  with assms show ?thesis by (simp add: take_last_def give_first_def inorder_leaf)
next
  case (Suc h')
  with assms have c: "\<not> bottom c" "length (map inorder (children c)) = Suc (length (keys c))"
    and x: "children x \<noteq> []" by auto
  have "inorder (take_last c s x) = inorder c @ s # inorder (hd (children x))"
    using c weave_snoc [OF c(2), of "inorder (hd (children x))" s]
    by (simp add: take_last_def inorder_sel [of c])
  moreover have "inorder x = inorder (hd (children x)) @ hd (keys x) #
      inorder (give_first (bottom c) x)"
  proof -
    from x assms(3) obtain x0 xs k0 ks where "children x = x0 # xs" "keys x = k0 # ks"
      by (cases "children x"; cases "keys x") auto
    then show ?thesis using c by (simp add: give_first_def inorder_sel [of x])
  qed
  ultimately show ?thesis by simp
qed

lemma inorder_rotate_right:
  assumes "bt h c" and "bt h x" and "keys x \<noteq> []"
  shows "inorder (give_last (bottom c) x) @ last (keys x) # inorder (take_first c s x) =
         inorder x @ s # inorder c"
proof (cases h)
  case 0
  with assms show ?thesis by (simp add: take_first_def give_last_def inorder_leaf)
next
  case (Suc h')
  with assms have c: "\<not> bottom c"
    and x: "length (map inorder (children x)) = Suc (length (keys x))" "children x \<noteq> []"
    by auto
  have "inorder (take_first c s x) = inorder (last (children x)) @ s # inorder c"
    using c by (simp add: take_first_def inorder_sel [of c])
  moreover have "inorder x = inorder (give_last (bottom c) x) @ last (keys x) #
      inorder (last (children x))"
    using weave_butlast [OF x(1) assms(3)] c x(2)
    by (simp add: give_last_def inorder_sel [of x] map_butlast last_map)
  ultimately show ?thesis by simp
qed

lemma bt_take_last: "bt h c \<Longrightarrow> bt h x \<Longrightarrow> DEGREE - 1 \<le> length (keys x) \<Longrightarrow> bt h (take_last c s x)"
proof (cases h)
  case 0
  assume "bt h c" with 0 show ?thesis by (simp add: take_last_def)
next
  case (Suc h')
  assume a: "bt h c" "bt h x"
  with Suc have "children x \<noteq> []" by auto
  then have "hd (children x) \<in> set (children x)" by simp
  with a Suc show ?thesis by (auto simp: take_last_def)
qed

lemma bt_take_first: "bt h c \<Longrightarrow> bt h x \<Longrightarrow> bt h (take_first c s x)"
proof (cases h)
  case 0
  assume "bt h c" with 0 show ?thesis by (simp add: take_first_def)
next
  case (Suc h')
  assume a: "bt h c" "bt h x"
  with Suc have "children x \<noteq> []" by auto
  then have "last (children x) \<in> set (children x)" by simp
  with a Suc show ?thesis by (auto simp: take_first_def)
qed

lemma bt_give_first:
  assumes "bt h x" and "2 \<le> length (keys x)"
  shows "bt h (give_first (h = 0) x)"
proof (cases h)
  case 0
  with assms show ?thesis by (simp add: give_first_def)
next
  case (Suc h')
  from assms(2) have "tl (keys x) \<noteq> []" by (cases "keys x") auto
  moreover have "set (tl (children x)) \<subseteq> set (children x)"
    by (cases "children x") auto
  ultimately show ?thesis using assms Suc by (auto simp: give_first_def)
qed

lemma bt_give_last:
  assumes "bt h x" and "2 \<le> length (keys x)"
  shows "bt h (give_last (h = 0) x)"
proof (cases h)
  case 0
  with assms show ?thesis by (simp add: give_last_def)
next
  case (Suc h')
  from assms(2) have "butlast (keys x) \<noteq> []" by (cases "keys x" rule: rev_cases) auto
  moreover have "set (butlast (children x)) \<subseteq> set (children x)"
    by (auto dest: in_set_butlastD)
  ultimately show ?thesis using assms Suc by (auto simp: give_last_def)
qed

subsection \<open>One call of remove\<close>

lemma bt_bottom: "bt h c \<Longrightarrow> bottom c \<longleftrightarrow> h = 0"
  by (cases h) simp_all

lemma removed_big:
  assumes "removed h c k res" and "2 \<le> length (keys c)"
  shows "\<exists>c'. res = Inr (c', c') \<and> inorder c' = del k (inorder c) \<and> bt h c' \<and>
           length (keys c) \<le> Suc (length (keys c'))"
  using assms by (auto simp: removed_def split: sum.splits)

lemma removedI:
  "res = Inr (q, q) \<Longrightarrow> inorder q = del k (inorder p) \<Longrightarrow> bt h q \<Longrightarrow>
   length (keys p) \<le> Suc (length (keys q)) \<Longrightarrow> removed h p k res"
  by (simp add: removed_def)

lemma length_del:
  assumes "sorted_keys es"
  shows "length es \<le> Suc (length (del k es))"
proof (cases "k \<in> key ` set es")
  case True
  then obtain e where "e \<in> set es" "key e = k" by auto
  then obtain xs ys where es: "es = xs @ e # ys" by (auto dest: split_list)
  with del_mid [of xs e ys] assms \<open>key e = k\<close> show ?thesis by simp
next
  case False
  then show ?thesis by (simp add: del_notin)
qed

lemma remove_step_leaf:
  assumes "bt 0 p" and "sorted_keys (inorder p)"
  shows "removed 0 p k (remove (Suc n) p k)"
proof -
  from assms have leaf: "bottom p" "children p = []" and io: "inorder p = keys p"
    by (simp_all add: inorder_leaf)
  let ?q = "Page (bottom p) (del k (keys p)) (children p)"
  have "remove (Suc n) p k = Inr (?q, ?q)" using leaf(1) assms(2) io by (intro remove_leaf) simp_all
  moreover have "inorder ?q = del k (inorder p)" using leaf io by simp
  moreover have "bt 0 ?q" using leaf by simp
  moreover have "length (keys p) \<le> Suc (length (keys ?q))"
    using length_del [of "keys p" k] assms(2) io by simp
  ultimately show ?thesis by (rule removedI)
qed

lemma bt_node:
  assumes "bt (Suc h) p"
  shows "\<not> bottom p" and "keys p \<noteq> []" and "length (children p) = Suc (length (keys p))"
    and "\<And>i. i \<le> length (keys p) \<Longrightarrow>
           bt h (children p ! i) \<and> DEGREE - 1 \<le> length (keys (children p ! i))"
  using assms by (simp_all add: less_Suc_eq_le [symmetric])

lemma bt_nodeI:
  assumes "\<not> bottom p" and "keys p \<noteq> []" and "length (children p) = Suc (length (keys p))"
    and "\<And>c. c \<in> set (children p) \<Longrightarrow> bt h c \<and> DEGREE - 1 \<le> length (keys c)"
  shows "bt (Suc h) p"
  using assms by simp

lemma del_around:
  fixes k :: "'k::linorder"
  assumes "\<forall>e\<in>set xs. key e < k" and "\<forall>e\<in>set ys. k < key e"
  shows "del k (xs @ c @ ys) = xs @ del k c @ ys"
proof -
  from assms have "k \<notin> key ` set xs" "k \<notin> key ` set ys" by auto
  then show ?thesis by (simp add: del_append del_notin)
qed

lemma remove_step_descend:
  fixes p :: "('k::linorder, 'v) Page"
  assumes IH: "\<And>c :: ('k, 'v) Page.
      bt h c \<Longrightarrow> sorted_keys (inorder c) \<Longrightarrow> removed h c k (remove n c k)"
    and bt: "bt (Suc h) p" and srt: "sorted_keys (inorder p)"
    and nf: "k \<notin> key ` set (keys p)"
    and big: "length (keys (children p ! bisect_right (keys p) k)) \<noteq> DEGREE - 1"
  shows "\<exists>q. remove (Suc n) p k = Inr (q, q) \<and> inorder q = del k (inorder p) \<and>
           bt (Suc h) q \<and> length (keys q) = length (keys p)"
proof -
  let ?r = "bisect_right (keys p) k"
  let ?c = "children p ! ?r"
  note node = bt_node [OF bt]
  have sk: "sorted_keys (keys p)" using srt by (rule sorted_keys_page)
  have rle: "?r \<le> length (keys p)" using sk by (rule bisect_right_le)
  have c: "bt h ?c" "DEGREE - 1 \<le> length (keys ?c)" using node(4) [OF rle] by simp_all
  with big have cbig: "DEGREE \<le> length (keys ?c)" by simp
  then have c2: "2 \<le> length (keys ?c)" using DEGREE_ge2 by simp
  have cs: "sorted_keys (inorder ?c)" using node(3) srt rle by (rule child_sorted)
  from removed_big [OF IH [OF c(1) cs] c2] obtain c'
    where c': "remove n ?c k = Inr (c', c')" "inorder c' = del k (inorder ?c)" "bt h c'"
      "length (keys ?c) \<le> Suc (length (keys c'))" by blast
  let ?q = "Page (bottom p) (keys p) ((children p)[?r := c'])"
  have "remove (Suc n) p k = Inr (?q, ?q)"
    using remove_absent_eq [OF node(1) sk nf node(2,3), of n] big c'(1) by (simp add: Let_def)
  moreover have "inorder ?q = del k (inorder p)"
  proof -
    have "inorder ?q = before p ?r @ inorder c' @ after p ?r"
      using node(3) rle by (rule inorder_child_update)
    moreover have "del k (before p ?r @ inorder ?c @ after p ?r) =
        before p ?r @ del k (inorder ?c) @ after p ?r"
      using before_below [OF node(3) srt nf] after_above [OF node(3) srt]
      by (intro del_around) blast+
    ultimately show ?thesis using inorder_split [OF node(3) rle] c'(2) by simp
  qed
  moreover have "bt (Suc h) ?q"
  proof (rule bt_nodeI)
    fix d assume "d \<in> set (children ?q)"
    then have "d = c' \<or> d \<in> set (children p)"
      using set_update_subset_insert [of "children p" ?r c'] by auto
    then show "bt h d \<and> DEGREE - 1 \<le> length (keys d)"
      using c'(3,4) cbig bt by auto
  qed (use node in simp_all)
  ultimately show ?thesis by auto
qed

lemma update_at_take:
  "i \<le> length xs \<Longrightarrow> (take i xs @ m # ys)[i := m'] = take i xs @ m' # ys"
  by (simp add: list_update_append min_def)

lemma set_merge_children:
  "set (take i cs @ m # drop j cs) \<subseteq> insert m (set cs)"
  using set_take_subset [of i cs] set_drop_subset [of j cs] by auto

lemma remove_step_found:
  fixes p :: "('k::linorder, 'v) Page"
  assumes IH: "\<And>(c :: ('k, 'v) Page) k'.
      bt h c \<Longrightarrow> sorted_keys (inorder c) \<Longrightarrow> removed h c k' (remove n c k')"
    and bt: "bt (Suc h) p" and srt: "sorted_keys (inorder p)"
    and e: "e \<in> set (keys p)" "key e = k"
  shows "removed (Suc h) p k (remove (Suc n) p k)"
proof -
  let ?r = "bisect_right (keys p) k"
  define i where "i = ?r - 1"
  define pred where "pred = children p ! i"
  define succ where "succ = children p ! Suc i"
  note node = bt_node [OF bt]
  have sk: "sorted_keys (keys p)" using srt by (rule sorted_keys_page)
  have rle: "?r \<le> length (keys p)" using sk by (rule bisect_right_le)
  from bisect_found [OF sk e] have r: "0 < ?r" and ei: "keys p ! i = e" by (simp_all add: i_def)
  have i: "i < length (keys p)" "i \<le> length (keys p)" "Suc i \<le> length (keys p)"
    using r rle by (simp_all add: i_def)
  have pred: "bt h pred" "DEGREE - 1 \<le> length (keys pred)"
    using node(4) [OF i(2)] by (simp_all add: pred_def)
  have succ: "bt h succ" "DEGREE - 1 \<le> length (keys succ)"
    using node(4) [OF i(3)] by (simp_all add: succ_def)
  have ps: "sorted_keys (inorder pred)" unfolding pred_def using node(3) srt i(2) by (rule child_sorted)
  have ss: "sorted_keys (inorder succ)" unfolding succ_def using node(3) srt i(3) by (rule child_sorted)
  have win: "inorder p = before p i @ inorder pred @ e # inorder succ @ after p (Suc i)"
    using inorder_window [OF node(3) i(1)] ei by (simp add: pred_def succ_def)
  have dl: "del k (inorder p) = before p i @ inorder pred @ inorder succ @ after p (Suc i)"
    using del_mid [of "before p i @ inorder pred" e "inorder succ @ after p (Suc i)"] srt win e(2)
    by simp
  note eq = remove_found_eq [OF node(1) sk e node(3), of n, unfolded Let_def, folded i_def,
      folded pred_def succ_def]
  show ?thesis
  proof (cases "DEGREE \<le> length (keys pred)")
    case A: True
    define kp where "kp = last (inorder pred)"
    have fp: "find_predecessor pred = Inr kp"
      unfolding kp_def using pred by (rule find_predecessor_last)
    have pn: "inorder pred \<noteq> []" using bt_nonempty [OF pred] by simp
    have "2 \<le> length (keys pred)" using A DEGREE_ge2 by simp
    from removed_big [OF IH [OF pred(1) ps] this, of "key kp"] obtain pred'
      where pred': "remove n pred (key kp) = Inr (pred', pred')"
        "inorder pred' = del (key kp) (inorder pred)" "bt h pred'"
        "length (keys pred) \<le> Suc (length (keys pred'))" by blast
    have ip: "inorder pred' = butlast (inorder pred)"
      using pred'(2) del_last [OF ps pn] by (simp add: kp_def)
    let ?q = "Page (bottom p) ((keys p)[i := kp]) ((children p)[i := pred'])"
    have res: "remove (Suc n) p k = Inr (?q, ?q)"
      using A by (simp add: eq fp pred'(1) Let_def)
    have "inorder ?q = before p i @ inorder (children ?q ! i) @ keys ?q ! i #
        inorder (children ?q ! Suc i) @ after p (Suc i)"
      using node(3) i(1) by (rule inorder_window_update) simp_all
    then have "inorder ?q = before p i @ butlast (inorder pred) @ kp # inorder succ @ after p (Suc i)"
      using i node(3) ip by (simp add: succ_def)
    then have io: "inorder ?q = del k (inorder p)"
      using dl pn by (simp add: kp_def)
    have "bt (Suc h) ?q"
    proof (rule bt_nodeI)
      fix d assume "d \<in> set (children ?q)"
      then have "d = pred' \<or> d \<in> set (children p)"
        using set_update_subset_insert [of "children p" i pred'] by auto
      then show "bt h d \<and> DEGREE - 1 \<le> length (keys d)"
        using pred'(3,4) A bt by auto
    qed (use node in simp_all)
    with res io show ?thesis by (intro removedI [of _ ?q]) simp_all
  next
    case notA: False
    show ?thesis
    proof (cases "DEGREE \<le> length (keys succ)")
      case B: True
      define ks where "ks = hd (inorder succ)"
      have fs: "find_successor succ = Inr ks"
        unfolding ks_def using succ by (rule find_successor_hd)
      have sn: "inorder succ \<noteq> []" using bt_nonempty [OF succ] by simp
      have "2 \<le> length (keys succ)" using B DEGREE_ge2 by simp
      from removed_big [OF IH [OF succ(1) ss] this, of "key ks"] obtain succ'
        where succ': "remove n succ (key ks) = Inr (succ', succ')"
          "inorder succ' = del (key ks) (inorder succ)" "bt h succ'"
          "length (keys succ) \<le> Suc (length (keys succ'))" by blast
      have isc: "inorder succ' = tl (inorder succ)"
        using succ'(2) del_hd [OF ss sn] by (simp add: ks_def)
      let ?q = "Page (bottom p) ((keys p)[i := ks]) ((children p)[Suc i := succ'])"
      have res: "remove (Suc n) p k = Inr (?q, ?q)"
        using notA B by (simp add: eq fs succ'(1) Let_def)
      have "inorder ?q = before p i @ inorder (children ?q ! i) @ keys ?q ! i #
          inorder (children ?q ! Suc i) @ after p (Suc i)"
        using node(3) i(1) by (rule inorder_window_update) simp_all
      then have "inorder ?q = before p i @ inorder pred @ ks # tl (inorder succ) @ after p (Suc i)"
        using i node(3) isc by (simp add: pred_def)
      then have io: "inorder ?q = del k (inorder p)"
        using dl sn by (simp add: ks_def)
      have "bt (Suc h) ?q"
      proof (rule bt_nodeI)
        fix d assume "d \<in> set (children ?q)"
        then have "d = succ' \<or> d \<in> set (children p)"
          using set_update_subset_insert [of "children p" "Suc i" succ'] by auto
        then show "bt h d \<and> DEGREE - 1 \<le> length (keys d)"
          using succ'(3,4) B bt by auto
      qed (use node in simp_all)
      with res io show ?thesis by (intro removedI [of _ ?q]) simp_all
    next
      case notB: False
      define merged where "merged =
        Page (bottom pred \<and> bottom succ) (keys pred @ keys p ! i # keys succ)
          (children pred @ children succ)"
      have lens: "length (keys pred) = DEGREE - 1" "length (keys succ) = DEGREE - 1"
        using notA notB pred(2) succ(2) by simp_all
      have mb: "bt h merged" unfolding merged_def using pred(1) succ(1) by (rule bt_merged)
      have mi: "inorder merged = inorder pred @ e # inorder succ"
        unfolding merged_def using inorder_merged [OF pred(1) succ(1)] ei by simp
      have ms: "sorted_keys (inorder merged)"
        using srt win mi by (auto simp: sorted_keys_append sorted_keys_Cons)
      have ml: "length (keys merged) = 2 * DEGREE - 1"
        using lens DEGREE_ge2 by (simp add: merged_def)
      then have "2 \<le> length (keys merged)" using DEGREE_ge2 by simp
      from removed_big [OF IH [OF mb ms] this, of k] obtain merged'
        where merged': "remove n merged k = Inr (merged', merged')"
          "inorder merged' = del k (inorder merged)" "bt h merged'"
          "length (keys merged) \<le> Suc (length (keys merged'))" by blast
      have mi': "inorder merged' = inorder pred @ inorder succ"
        using merged'(2) mi del_mid [of "inorder pred" e "inorder succ"] ms e(2) by simp
      have mk: "DEGREE - 1 \<le> length (keys merged')" using merged'(4) ml by simp
      let ?ks = "take i (keys p) @ drop (Suc i) (keys p)"
      let ?q = "Page (bottom p) ?ks (take i (children p) @ merged' # drop (Suc (Suc i)) (children p))"
      have mg: "merge p i pred succ =
          Inr (Page (bottom p) ?ks (take i (children p) @ merged # drop (Suc (Suc i)) (children p)),
               merged)"
        unfolding merged_def using i(1) node(3) by (rule merge_eq)
      have up: "(take i (children p) @ merged # drop (Suc (Suc i)) (children p))[i := merged'] =
          take i (children p) @ merged' # drop (Suc (Suc i)) (children p)"
        using i node(3) by (intro update_at_take) simp
      show ?thesis
      proof (cases "length (keys p) = 1")
        case True
        then have i0: "i = 0" using i by simp
        have ke: "?ks = []" using True i0 by simp
        have "remove (Suc n) p k = Inr (?q, merged')"
          using notA notB by (simp add: eq mg merged'(1) up ke Let_def)
        moreover have "inorder merged' = del k (inorder p)"
          using dl mi' i0 True by simp
        ultimately show ?thesis using True merged'(3) mk by (simp add: removed_def)
      next
        case False
        then have l2: "2 \<le> length (keys p)" using i by simp
        then have kn: "?ks \<noteq> []" using i by auto
        have res: "remove (Suc n) p k = Inr (?q, ?q)"
          using notA notB kn by (auto simp: eq mg merged'(1) up Let_def)
        have "inorder ?q = before p i @ inorder merged' @ after p (Suc i)"
          using node(3) i(1) by (rule inorder_merge_update)
        then have io: "inorder ?q = del k (inorder p)" using dl mi' by simp
        have "bt (Suc h) ?q"
        proof (rule bt_nodeI)
          fix d assume "d \<in> set (children ?q)"
          then have "d = merged' \<or> d \<in> set (children p)"
            using set_merge_children [of i "children p" merged' "Suc (Suc i)"] by auto
          then show "bt h d \<and> DEGREE - 1 \<le> length (keys d)"
            using merged'(3) mk bt by auto
        next
          show "length (children ?q) = Suc (length (keys ?q))" using i node(3) by simp
        qed (use node kn in simp_all)
        with res io show ?thesis using i by (intro removedI [of _ ?q]) simp_all
      qed
    qed
  qed
qed

lemma keys_in_inorder: "set (keys c) \<subseteq> set (inorder c)"
  using set_weave_keys [of "keys c" "map inorder (children c)"] by (simp add: inorder_sel [of c])

lemma bisect_right_cut:
  fixes k :: "'k::linorder"
  assumes "sorted_keys ks" and "r = bisect_right ks k" and "i \<le> r" and "r \<le> j"
    and "\<forall>e\<in>set mid. key e \<le> k \<or> k < key e"
    and "\<forall>e\<in>set xs. key e \<le> k" and "\<forall>e\<in>set ys. k < key e"
  shows "bisect_right ((take i ks @ xs) @ ys @ drop j ks) k = i + length xs"
proof -
  have "set (take i ks) \<subseteq> set (take r ks)" using assms(3) by (rule set_take_subset_set_take)
  then have a: "\<forall>e\<in>set (take i ks @ xs). key e \<le> k"
    using bisect_take [OF assms(1), of _ k] assms(2,6) by auto
  have "set (drop j ks) \<subseteq> set (drop r ks)" using assms(4) by (rule set_drop_subset_set_drop)
  then have b: "\<forall>e\<in>set (ys @ drop j ks). k < key e"
    using bisect_drop [OF assms(1), of _ k] assms(2,7) by auto
  have "i \<le> length ks" using assms(2,3) bisect_right_le [OF assms(1), of k] by simp
  then show ?thesis using bisect_right_append [OF a b] by (simp add: min_def)
qed

lemma borrow_right_ok:
  fixes p :: "('k::linorder, 'v) Page"
  assumes bt: "bt (Suc h) p" and srt: "sorted_keys (inorder p)"
    and nf: "k \<notin> key ` set (keys p)"
    and r: "r = bisect_right (keys p) k" "r < length (keys p)"
    and small: "length (keys (children p ! r)) = DEGREE - 1"
    and rich: "DEGREE - 1 < length (keys (children p ! Suc r))"
  shows "\<exists>p1. borrow_from_right p r = Inr p1 \<and> bt (Suc h) p1 \<and> inorder p1 = inorder p \<and>
           k \<notin> key ` set (keys p1) \<and> bisect_right (keys p1) k = r \<and>
           length (keys (children p1 ! r)) \<noteq> DEGREE - 1 \<and> length (keys p1) = length (keys p)"
proof -
  define cur where "cur = children p ! r"
  define right where "right = children p ! Suc r"
  define rk where "rk = hd (keys right)"
  define cur' where "cur' = take_last cur (keys p ! r) right"
  define right' where "right' = give_first (bottom cur) right"
  define p1 where "p1 = Page (bottom p) ((keys p)[r := rk]) ((children p)[r := cur', Suc r := right'])"
  note node = bt_node [OF bt]
  have sk: "sorted_keys (keys p)" using srt by (rule sorted_keys_page)
  have cur: "bt h cur" "DEGREE - 1 \<le> length (keys cur)"
    using node(4) [of r] r(2) by (simp_all add: cur_def)
  have right: "bt h right" "DEGREE - 1 \<le> length (keys right)"
    using node(4) [of "Suc r"] r(2) by (simp_all add: right_def)
  have rl: "2 \<le> length (keys right)" using rich DEGREE_ge2 by (simp add: right_def)
  then have rn: "keys right \<noteq> []" by auto
  have rc: "\<not> bottom cur \<Longrightarrow> children right \<noteq> []"
    using bt_bottom [OF cur(1)] right(1) by (cases h) auto
  have eq: "borrow_from_right p r = Inr p1"
    unfolding p1_def cur'_def right'_def rk_def cur_def right_def
    using r(2) node(3) rn rc by (intro borrow_from_right_eq) (simp_all add: cur_def right_def)
  have bc: "bt h cur'" unfolding cur'_def using cur(1) right by (rule bt_take_last)
  have br: "bt h right'"
    unfolding right'_def using bt_give_first [OF right(1) rl] bt_bottom [OF cur(1)] by simp
  have lc: "length (keys cur') = DEGREE"
    using small DEGREE_ge2 by (simp add: cur'_def take_last_def cur_def)
  have lr: "DEGREE - 1 \<le> length (keys right')"
    using rich by (simp add: right'_def give_first_def right_def)
  have b1: "bt (Suc h) p1"
  proof (rule bt_nodeI)
    fix d assume "d \<in> set (children p1)"
    then have "d = right' \<or> d = cur' \<or> d \<in> set (children p)"
      using set_update_subset_insert [of "(children p)[r := cur']" "Suc r" right']
        set_update_subset_insert [of "children p" r cur'] by (auto simp: p1_def)
    then show "bt h d \<and> DEGREE - 1 \<le> length (keys d)"
      using bc br lc lr bt by auto
  qed (use node in \<open>simp_all add: p1_def\<close>)
  have "inorder p1 = before p r @ inorder (children p1 ! r) @ keys p1 ! r #
      inorder (children p1 ! Suc r) @ after p (Suc r)"
    using node(3) r(2) by (rule inorder_window_update) (simp_all add: p1_def)
  then have "inorder p1 = before p r @ (inorder cur' @ rk # inorder right') @ after p (Suc r)"
    using r(2) node(3) by (simp add: p1_def)
  also have "inorder cur' @ rk # inorder right' = inorder cur @ keys p ! r # inorder right"
    unfolding cur'_def right'_def rk_def using cur(1) right(1) rn by (rule inorder_rotate_left)
  finally have io: "inorder p1 = inorder p"
    using inorder_window [OF node(3) r(2)] by (simp add: cur_def right_def)
  have "rk \<in> set (keys right)" using rn by (simp add: rk_def)
  then have "rk \<in> set (inorder right)" using keys_in_inorder by blast
  then have "rk \<in> set (after p r)"
    using after_unfold [of r p] r(2) node(3) by (simp add: right_def)
  then have krk: "k < key rk" using after_above [OF node(3) srt] r(1) by blast
  have ks1: "keys p1 = (take r (keys p) @ []) @ [rk] @ drop (Suc r) (keys p)"
    using r(2) by (simp add: p1_def upd_conv_take_nth_drop)
  have bs: "bisect_right (keys p1) k = r"
    unfolding ks1 using sk r(1) krk
    by (subst bisect_right_cut [where r = r and mid = "[]"]) simp_all
  have "set (keys p1) \<subseteq> insert rk (set (keys p))"
    using set_update_subset_insert [of "keys p" r rk] by (simp add: p1_def)
  then have nf1: "k \<notin> key ` set (keys p1)" using nf krk by auto
  have "children p1 ! r = cur'" using r(2) node(3) by (simp add: p1_def)
  then have "length (keys (children p1 ! r)) \<noteq> DEGREE - 1" using lc DEGREE_ge2 by simp
  moreover have "length (keys p1) = length (keys p)" by (simp add: p1_def)
  ultimately show ?thesis using eq b1 io nf1 bs by blast
qed

lemma borrow_left_ok:
  fixes p :: "('k::linorder, 'v) Page"
  assumes bt: "bt (Suc h) p" and srt: "sorted_keys (inorder p)"
    and nf: "k \<notin> key ` set (keys p)"
    and r: "Suc j = bisect_right (keys p) k"
    and small: "length (keys (children p ! Suc j)) = DEGREE - 1"
    and rich: "DEGREE - 1 < length (keys (children p ! j))"
  shows "\<exists>p1. borrow_from_left p j (Suc j) = Inr p1 \<and> bt (Suc h) p1 \<and> inorder p1 = inorder p \<and>
           k \<notin> key ` set (keys p1) \<and> bisect_right (keys p1) k = Suc j \<and>
           length (keys (children p1 ! Suc j)) \<noteq> DEGREE - 1 \<and>
           length (keys p1) = length (keys p)"
proof -
  define cur where "cur = children p ! Suc j"
  define left where "left = children p ! j"
  define lk where "lk = last (keys left)"
  define cur' where "cur' = take_first cur (keys p ! j) left"
  define left' where "left' = give_last (bottom cur) left"
  define p1 where "p1 = Page (bottom p) ((keys p)[j := lk]) ((children p)[Suc j := cur', j := left'])"
  note node = bt_node [OF bt]
  have sk: "sorted_keys (keys p)" using srt by (rule sorted_keys_page)
  have rle: "Suc j \<le> length (keys p)" using bisect_right_le [OF sk, of k] r by simp
  then have j: "j < length (keys p)" by simp
  have cur: "bt h cur" "DEGREE - 1 \<le> length (keys cur)"
    using node(4) [of "Suc j"] rle by (simp_all add: cur_def)
  have left: "bt h left" "DEGREE - 1 \<le> length (keys left)"
    using node(4) [of j] j by (simp_all add: left_def)
  have ll: "2 \<le> length (keys left)" using rich DEGREE_ge2 by (simp add: left_def)
  then have ln: "keys left \<noteq> []" by auto
  have lc: "\<not> bottom cur \<Longrightarrow> children left \<noteq> []"
    using bt_bottom [OF cur(1)] left(1) by (cases h) auto
  have eq: "borrow_from_left p j (Suc j) = Inr p1"
    unfolding p1_def cur'_def left'_def lk_def cur_def left_def
    using j node(3) ln lc by (intro borrow_from_left_eq) (simp_all add: cur_def left_def)
  have bc: "bt h cur'" unfolding cur'_def using cur(1) left(1) by (rule bt_take_first)
  have bl: "bt h left'"
    unfolding left'_def using bt_give_last [OF left(1) ll] bt_bottom [OF cur(1)] by simp
  have lcu: "length (keys cur') = DEGREE"
    using small DEGREE_ge2 by (simp add: cur'_def take_first_def cur_def)
  have lle: "DEGREE - 1 \<le> length (keys left')"
    using rich by (simp add: left'_def give_last_def left_def)
  have b1: "bt (Suc h) p1"
  proof (rule bt_nodeI)
    fix d assume "d \<in> set (children p1)"
    then have "d = left' \<or> d = cur' \<or> d \<in> set (children p)"
      using set_update_subset_insert [of "(children p)[Suc j := cur']" j left']
        set_update_subset_insert [of "children p" "Suc j" cur'] by (auto simp: p1_def)
    then show "bt h d \<and> DEGREE - 1 \<le> length (keys d)"
      using bc bl lcu lle bt by auto
  qed (use node in \<open>simp_all add: p1_def\<close>)
  have "inorder p1 = before p j @ inorder (children p1 ! j) @ keys p1 ! j #
      inorder (children p1 ! Suc j) @ after p (Suc j)"
    using node(3) j by (rule inorder_window_update) (simp_all add: p1_def)
  then have "inorder p1 = before p j @ (inorder left' @ lk # inorder cur') @ after p (Suc j)"
    using j node(3) by (simp add: p1_def)
  also have "inorder left' @ lk # inorder cur' = inorder left @ keys p ! j # inorder cur"
    unfolding cur'_def left'_def lk_def using cur(1) left(1) ln by (rule inorder_rotate_right)
  finally have io: "inorder p1 = inorder p"
    using inorder_window [OF node(3) j] by (simp add: cur_def left_def)
  have "lk \<in> set (keys left)" using ln by (simp add: lk_def)
  then have "lk \<in> set (inorder left)" using keys_in_inorder by blast
  then have "lk \<in> set (before p (Suc j))"
    using before_Suc [of j p] j node(3) by (simp add: left_def)
  then have klk: "key lk < k" using before_below [OF node(3) srt nf] r by simp
  have ks1: "keys p1 = (take j (keys p) @ [lk]) @ [] @ drop (Suc j) (keys p)"
    using j by (simp add: p1_def upd_conv_take_nth_drop)
  have bs: "bisect_right (keys p1) k = Suc j"
    unfolding ks1 using sk r klk
    by (subst bisect_right_cut [where r = "Suc j" and mid = "[]"]) simp_all
  have "set (keys p1) \<subseteq> insert lk (set (keys p))"
    using set_update_subset_insert [of "keys p" j lk] by (simp add: p1_def)
  then have nf1: "k \<notin> key ` set (keys p1)" using nf klk by auto
  have "children p1 ! Suc j = cur'" using j node(3) by (simp add: p1_def)
  then have "length (keys (children p1 ! Suc j)) \<noteq> DEGREE - 1" using lcu DEGREE_ge2 by simp
  moreover have "length (keys p1) = length (keys p)" by (simp add: p1_def)
  ultimately show ?thesis using eq b1 io nf1 bs by blast
qed

text \<open>The page after the children \<open>i\<close> and \<open>i + 1\<close> around the bisection index were merged
  and the key was removed from the merged child \<open>m\<close>.\<close>

lemma merge_ok:
  fixes p :: "('k::linorder, 'v) Page"
  assumes bt: "bt (Suc h) p" and srt: "sorted_keys (inorder p)"
    and nf: "k \<notin> key ` set (keys p)"
    and i: "i = bisect_right (keys p) k - 1"
    and l2: "2 \<le> length (keys p)"
    and m: "bt h m" "2 * DEGREE - 2 \<le> length (keys m)"
      "inorder m = del k (inorder (children p ! i) @ keys p ! i # inorder (children p ! Suc i))"
    and q: "q = Page (bottom p) (take i (keys p) @ drop (Suc i) (keys p))
            (take i (children p) @ m # drop (Suc (Suc i)) (children p))"
  shows "bt (Suc h) q"
    and "inorder q = del k (inorder p)"
    and "k \<notin> key ` set (keys q)"
    and "length (keys (children q ! bisect_right (keys q) k)) \<noteq> DEGREE - 1"
    and "Suc (length (keys q)) = length (keys p)"
proof -
  let ?r = "bisect_right (keys p) k"
  note node = bt_node [OF bt]
  have sk: "sorted_keys (keys p)" using srt by (rule sorted_keys_page)
  have rle: "?r \<le> length (keys p)" using sk by (rule bisect_right_le)
  have il: "i < length (keys p)" "i \<le> ?r" "?r \<le> Suc i" using rle l2 i by simp_all
  have qk: "keys q = take i (keys p) @ drop (Suc i) (keys p)"
    and qc: "children q = take i (children p) @ m # drop (Suc (Suc i)) (children p)"
    and qb: "bottom q = bottom p" by (simp_all add: q)
  show b: "bt (Suc h) q"
  proof (rule bt_nodeI)
    fix d assume "d \<in> set (children q)"
    then have "d = m \<or> d \<in> set (children p)"
      using set_merge_children [of i "children p" m "Suc (Suc i)"] by (auto simp: qc)
    then show "bt h d \<and> DEGREE - 1 \<le> length (keys d)"
      using m(1,2) bt by auto
  next
    show "keys q \<noteq> []" using l2 il by (auto simp: qk)
    show "length (children q) = Suc (length (keys q))" using il node(3) by (simp add: qk qc)
    show "\<not> bottom q" using node(1) by (simp add: qb)
  qed
  have bb: "\<forall>e\<in>set (before p i). key e < k"
  proof (cases "?r = 0")
    case True
    then show ?thesis using i by simp
  next
    case False
    then have "before p ?r = before p i @ inorder (children p ! i) @ [keys p ! i]"
      using before_Suc [of i p] il(1) node(3) i by simp
    then show ?thesis using before_below [OF node(3) srt nf] by auto
  qed
  have aa: "\<forall>e\<in>set (after p (Suc i)). k < key e"
  proof (cases "?r = 0")
    case True
    then have "after p ?r = keys p ! i # inorder (children p ! Suc i) @ after p (Suc i)"
      using after_unfold [of i p] il(1) node(3) i by simp
    then show ?thesis using after_above [OF node(3) srt, of _ k] by auto
  next
    case False
    then have "Suc i = ?r" using i by simp
    then show ?thesis using after_above [OF node(3) srt, of _ k] by auto
  qed
  have "inorder q = before p i @ inorder m @ after p (Suc i)"
    unfolding q using node(3) il(1) by (rule inorder_merge_update)
  moreover have "del k (before p i @
      (inorder (children p ! i) @ keys p ! i # inorder (children p ! Suc i)) @ after p (Suc i)) =
      before p i @
      del k (inorder (children p ! i) @ keys p ! i # inorder (children p ! Suc i)) @
      after p (Suc i)"
    using bb aa by (rule del_around)
  ultimately show "inorder q = del k (inorder p)"
    using inorder_window [OF node(3) il(1)] m(3) by simp
  have "set (keys q) \<subseteq> set (keys p)"
    using set_take_subset [of i "keys p"] set_drop_subset [of "Suc i" "keys p"]
    by (auto simp: qk)
  then show "k \<notin> key ` set (keys q)" using nf by auto
  have "keys q = (take i (keys p) @ []) @ [] @ drop (Suc i) (keys p)" by (simp add: qk)
  then have "bisect_right (keys q) k = i"
    using bisect_right_cut [OF sk refl il(2,3), where mid = "[]" and xs = "[]" and ys = "[]"]
    by simp
  moreover have "children q ! i = m" using il(1) node(3) by (simp add: qc nth_append)
  ultimately show "length (keys (children q ! bisect_right (keys q) k)) \<noteq> DEGREE - 1"
    using m(2) DEGREE_ge2 by simp
  show "Suc (length (keys q)) = length (keys p)" using il(1) by (simp add: qk)
qed

lemma remove_step_repair:
  fixes p :: "('k::linorder, 'v) Page"
  assumes IH: "\<And>c :: ('k, 'v) Page.
      bt h c \<Longrightarrow> sorted_keys (inorder c) \<Longrightarrow> removed h c k (remove m c k)"
    and IH': "\<And>c :: ('k, 'v) Page.
      bt h c \<Longrightarrow> sorted_keys (inorder c) \<Longrightarrow> removed h c k (remove (Suc m) c k)"
    and bt: "bt (Suc h) p" and srt: "sorted_keys (inorder p)"
    and nf: "k \<notin> key ` set (keys p)"
    and small: "length (keys (children p ! bisect_right (keys p) k)) = DEGREE - 1"
  shows "removed (Suc h) p k (remove (Suc (Suc m)) p k)"
proof -
  let ?r = "bisect_right (keys p) k"
  note node = bt_node [OF bt]
  have sk: "sorted_keys (keys p)" using srt by (rule sorted_keys_page)
  have rle: "?r \<le> length (keys p)" using sk by (rule bisect_right_le)
  note eq = remove_absent_eq [OF node(1) sk nf node(2,3), of "Suc m", unfolded Let_def]
  show ?thesis
  proof (cases "?r + 1 < length (children p) \<and>
      DEGREE - 1 < length (keys (children p ! (?r + 1)))")
    case BR: True
    then have rlt: "?r < length (keys p)" and rich: "DEGREE - 1 < length (keys (children p ! Suc ?r))"
      using node(3) by simp_all
    from borrow_right_ok [OF bt srt nf refl rlt small rich] obtain p1
      where p1: "borrow_from_right p ?r = Inr p1" "bt (Suc h) p1" "inorder p1 = inorder p"
        "k \<notin> key ` set (keys p1)" "bisect_right (keys p1) k = ?r"
        "length (keys (children p1 ! ?r)) \<noteq> DEGREE - 1" "length (keys p1) = length (keys p)"
      by blast
    have s1: "sorted_keys (inorder p1)" using srt p1(3) by simp
    have big1: "length (keys (children p1 ! bisect_right (keys p1) k)) \<noteq> DEGREE - 1"
      using p1(5,6) by simp
    from remove_step_descend [OF IH p1(2) s1 p1(4) big1] obtain q
      where q: "remove (Suc m) p1 k = Inr (q, q)" "inorder q = del k (inorder p1)"
        "bt (Suc h) q" "length (keys q) = length (keys p1)" by blast
    have "remove (Suc (Suc m)) p k = Inr (q, q)"
      using small BR by (simp add: eq p1(1) q(1))
    then show ?thesis using q p1(3,7) by (intro removedI [of _ q]) simp_all
  next
    case notBR: False
    show ?thesis
    proof (cases "0 < ?r \<and> DEGREE - 1 < length (keys (children p ! (?r - 1)))")
      case BL: True
      then obtain j where j: "Suc j = ?r" by (cases ?r) auto
      have small': "length (keys (children p ! Suc j)) = DEGREE - 1" using small j by simp
      have rich: "DEGREE - 1 < length (keys (children p ! j))" using BL j [symmetric] by simp
      from borrow_left_ok [OF bt srt nf j small' rich] obtain p1
        where p1: "borrow_from_left p j (Suc j) = Inr p1" "bt (Suc h) p1" "inorder p1 = inorder p"
          "k \<notin> key ` set (keys p1)" "bisect_right (keys p1) k = Suc j"
          "length (keys (children p1 ! Suc j)) \<noteq> DEGREE - 1" "length (keys p1) = length (keys p)"
        by blast
      have s1: "sorted_keys (inorder p1)" using srt p1(3) by simp
      have big1: "length (keys (children p1 ! bisect_right (keys p1) k)) \<noteq> DEGREE - 1"
        using p1(5,6) by simp
      from remove_step_descend [OF IH p1(2) s1 p1(4) big1] obtain q
        where q: "remove (Suc m) p1 k = Inr (q, q)" "inorder q = del k (inorder p1)"
          "bt (Suc h) q" "length (keys q) = length (keys p1)" by blast
      have bl: "borrow_from_left p (?r - Suc 0) ?r = Inr p1" using p1(1) j [symmetric] by simp
      have "remove (Suc (Suc m)) p k = Inr (q, q)"
        using small notBR BL by (auto simp: eq bl q(1))
      then show ?thesis using q p1(3,7) by (intro removedI [of _ q]) simp_all
    next
      case notBL: False
      define i where "i = ?r - 1"
      define l where "l = children p ! i"
      define rr where "rr = children p ! Suc i"
      define merged where "merged =
        Page (bottom l \<and> bottom rr) (keys l @ keys p ! i # keys rr) (children l @ children rr)"
      have "0 < length (keys p)" using node(2) by simp
      then have il: "i < length (keys p)" "i \<le> length (keys p)" "Suc i \<le> length (keys p)"
        using rle unfolding i_def by linarith+
      have l: "bt h l" "DEGREE - 1 \<le> length (keys l)"
        using node(4) [OF il(2)] by (simp_all add: l_def)
      have rr: "bt h rr" "DEGREE - 1 \<le> length (keys rr)"
        using node(4) [OF il(3)] by (simp_all add: rr_def)
      have lens: "length (keys l) = DEGREE - 1 \<and> length (keys rr) = DEGREE - 1"
      proof (cases "?r = 0")
        case True
        then have "length (keys l) = DEGREE - 1" using small by (simp add: l_def i_def)
        moreover have "\<not> DEGREE - 1 < length (keys rr)"
          using notBR True node(2,3) by (simp add: rr_def i_def)
        ultimately show ?thesis using rr(2) by simp
      next
        case False
        then have "Suc i = ?r" by (simp add: i_def)
        then have "length (keys rr) = DEGREE - 1" using small by (simp add: rr_def)
        moreover have "\<not> DEGREE - 1 < length (keys l)"
          using notBL False by (simp add: l_def i_def)
        ultimately show ?thesis using l(2) by simp
      qed
      have mb: "bt h merged" unfolding merged_def using l(1) rr(1) by (rule bt_merged)
      have mi: "inorder merged = inorder l @ keys p ! i # inorder rr"
        unfolding merged_def using l(1) rr(1) by (rule inorder_merged)
      have win: "inorder p = before p i @ inorder l @ keys p ! i # inorder rr @ after p (Suc i)"
        using inorder_window [OF node(3) il(1)] by (simp add: l_def rr_def)
      have ms: "sorted_keys (inorder merged)"
        using srt win mi by (auto simp: sorted_keys_append sorted_keys_Cons)
      have ml: "length (keys merged) = 2 * DEGREE - 1"
        using lens DEGREE_ge2 by (simp add: merged_def)
      then have "2 \<le> length (keys merged)" using DEGREE_ge2 by simp
      from removed_big [OF IH' [OF mb ms] this] obtain merged'
        where merged': "remove (Suc m) merged k = Inr (merged', merged')"
          "inorder merged' = del k (inorder merged)" "bt h merged'"
          "length (keys merged) \<le> Suc (length (keys merged'))" by blast
      have mk: "2 * DEGREE - 2 \<le> length (keys merged')" using merged'(4) ml by simp
      have mi': "inorder merged' =
          del k (inorder (children p ! i) @ keys p ! i # inorder (children p ! Suc i))"
        using merged'(2) mi by (simp add: l_def rr_def)
      let ?ks = "take i (keys p) @ drop (Suc i) (keys p)"
      define q2 where "q2 =
        Page (bottom p) ?ks (take i (children p) @ merged' # drop (Suc (Suc i)) (children p))"
      have mg: "merge p i l rr =
          Inr (Page (bottom p) ?ks (take i (children p) @ merged # drop (Suc (Suc i)) (children p)),
               merged)"
        unfolding merged_def using il(1) node(3) by (rule merge_eq)
      have up: "(take i (children p) @ merged # drop (Suc (Suc i)) (children p))[i := merged'] =
          take i (children p) @ merged' # drop (Suc (Suc i)) (children p)"
        using il node(3) by (intro update_at_take) simp
      show ?thesis
      proof (cases "length (keys p) = 1")
        case True
        then have i0: "i = 0" using il by simp
        have ke: "?ks = []" using True i0 by simp
        have "remove (Suc (Suc m)) p k = Inr (q2, merged')"
          apply (simp only: eq small notBR notBL simp_thms if_True if_False)
          apply (simp only: i_def [symmetric] l_def [symmetric] rr_def [symmetric])
          apply (simp add: mg merged'(1) up ke q2_def)
          done
        moreover have "inorder merged' = del k (inorder p)"
          using win mi merged'(2) i0 True by simp
        moreover have "DEGREE - 1 \<le> length (keys merged')" using mk by linarith
        ultimately show ?thesis using True merged'(3) by (simp add: removed_def)
      next
        case False
        then have l2: "2 \<le> length (keys p)" using il by simp
        then have kn: "?ks \<noteq> []" using il by auto
        note ok = merge_ok [OF bt srt nf i_def l2 merged'(3) mk mi' q2_def]
        have s2: "sorted_keys (inorder q2)" using ok(2) srt by (simp add: sorted_keys_del)
        from remove_step_descend [OF IH ok(1) s2 ok(3,4)] obtain q
          where q: "remove (Suc m) q2 k = Inr (q, q)" "inorder q = del k (inorder q2)"
            "bt (Suc h) q" "length (keys q) = length (keys q2)" by blast
        have "remove (Suc (Suc m)) p k = Inr (q, q)"
          apply (simp only: eq small notBR notBL simp_thms if_True if_False)
          apply (simp only: i_def [symmetric] l_def [symmetric] rr_def [symmetric])
          apply (insert l2 il(1))
          apply (auto simp add: mg merged'(1) up q2_def [symmetric] q(1))
          done
        then show ?thesis using q ok(2,5) by (intro removedI [of _ q]) simp_all
      qed
    qed
  qed
qed

subsection \<open>Removal from a well-formed tree\<close>

lemma remove_correct:
  fixes p :: "('k::linorder, 'v) Page"
  shows "bt h p \<Longrightarrow> sorted_keys (inorder p) \<Longrightarrow> 2 * h < n \<Longrightarrow> removed h p k (remove n p k)"
proof (induction h arbitrary: p k n)
  case 0
  then obtain n' where "n = Suc n'" by (cases n) auto
  with 0 show ?case by (simp add: remove_step_leaf)
next
  case (Suc h)
  from Suc.prems(3) obtain m where n: "n = Suc (Suc m)" and m: "2 * h < m"
    by (cases n; cases "n - 1") auto
  have IHm: "removed h c k' (remove m c k')"
    if "bt h c" "sorted_keys (inorder c)" for c :: "('k, 'v) Page" and k'
    using Suc.IH [OF that] m by simp
  have IHm': "removed h c k' (remove (Suc m) c k')"
    if "bt h c" "sorted_keys (inorder c)" for c :: "('k, 'v) Page" and k'
    using Suc.IH [OF that] m by simp
  show ?case
  proof (cases "k \<in> key ` set (keys p)")
    case True
    then obtain e where "e \<in> set (keys p)" "key e = k" by auto
    with remove_step_found [OF IHm' Suc.prems(1,2)] show ?thesis by (simp add: n)
  next
    case nf: False
    show ?thesis
    proof (cases "length (keys (children p ! bisect_right (keys p) k)) = DEGREE - 1")
      case True
      with remove_step_repair [OF IHm IHm' Suc.prems(1,2) nf] show ?thesis by (simp add: n)
    next
      case False
      from remove_step_descend [OF IHm' Suc.prems(1,2) nf False] obtain q
        where "remove (Suc (Suc m)) p k = Inr (q, q)" "inorder q = del k (inorder p)"
          "bt (Suc h) q" "length (keys q) = length (keys p)" by blast
      then show ?thesis unfolding n by (intro removedI [of _ q]) simp_all
    qed
  qed
qed

lemma height_sel: "height p = (case children p of [] \<Rightarrow> 0 | c # _ \<Rightarrow> Suc (height c))"
  by (cases p) simp

lemma bt_height: "bt h p \<Longrightarrow> height p = h"
proof (induction h arbitrary: p)
  case 0
  then show ?case by (simp add: height_sel)
next
  case (Suc h)
  then obtain c cs where cs: "children p = c # cs" by (cases "children p") auto
  with Suc.prems have "bt h c" by simp
  with Suc.IH cs show ?case by (simp add: height_sel)
qed

lemma btree_okI: "bt h (root t) \<Longrightarrow> sorted_keys (inorder (root t)) \<Longrightarrow> btree_ok t"
  using bt_height [of h "root t"] by (simp add: btree_ok_def)

lemma find_key_lookup: "btree_ok t \<Longrightarrow> find_key t k = Inr (lookup (inorder (root t)) k)"
  unfolding btree_ok_def find_key_def by (elim conjE, rule find_page_lookup)

lemma BTree_remove_ok:
  assumes "btree_ok t" and "2 * height (root t) < n"
  shows "\<exists>t'. BTree_remove n t k = Inr t' \<and> btree_ok t' \<and>
           inorder (root t') = del k (inorder (root t)) \<and> height (root t') \<le> height (root t)"
proof -
  let ?h = "height (root t)"
  from assms have b: "bt ?h (root t)" and s: "sorted_keys (inorder (root t))"
    by (simp_all add: btree_ok_def)
  from remove_correct [OF b s assms(2), of k] obtain p' q
    where r: "remove n (root t) k = Inr (p', q)" "inorder q = del k (inorder (root t))"
      "bt ?h q \<or> bt (?h - 1) q"
    by (auto simp: removed_def split: sum.splits)
  have sq: "sorted_keys (inorder q)" using r(2) s by (simp add: sorted_keys_del)
  have "btree_ok \<lparr>root = q\<rparr>" using r(3) sq by (auto intro: btree_okI)
  moreover have "height q \<le> ?h" using r(3) bt_height [of _ q] by auto
  moreover have "BTree_remove n t k = Inr \<lparr>root = q\<rparr>" using r(1) by (simp add: BTree_remove_def)
  ultimately show ?thesis using r(2) by simp
qed

lemma three_leaves_ok: "btree_ok three_leaves"
  by code_simp

subsection \<open>Room for nested calls\<close>

lemma le_res_refl: "le_res x x"
  by (simp add: le_res_def)

lemma le_res_bind:
  "le_res m m' \<Longrightarrow> (\<And>x. le_res (f x) (f' x)) \<Longrightarrow> le_res (bind_e m f) (bind_e m' f')"
  by (cases m; cases m') (auto simp: le_res_def)

lemma le_res_if:
  "(c \<Longrightarrow> le_res a a') \<Longrightarrow> (\<not> c \<Longrightarrow> le_res b b') \<Longrightarrow>
   le_res (if c then a else b) (if c then a' else b')"
  by simp

lemma le_res_case_prod:
  "(\<And>a b. le_res (f a b) (f' a b)) \<Longrightarrow> le_res (case_prod f x) (case_prod f' x)"
  by (cases x) simp

text \<open>More room for nested calls does not change a result of \<open>remove\<close>.\<close>

lemma remove_mono: "le_res (remove n p k) (remove (n + d) p k)"
proof (induction n arbitrary: p k)
  case 0
  show ?case by (simp add: le_res_def)
next
  case (Suc n)
  show ?case
    unfolding add_Suc remove.simps(2) Let_def
    by (intro le_res_if le_res_bind le_res_case_prod Suc.IH le_res_refl)
qed

lemma BTree_remove_mono: "le_res (BTree_remove n t k) (BTree_remove (n + d) t k)"
  unfolding BTree_remove_def
  by (intro le_res_bind le_res_case_prod remove_mono le_res_refl)

lemma replay_mono: "le_res (replay n t acts) (replay (n + d) t acts)"
proof (induction acts arbitrary: t)
  case Nil
  show ?case by (simp add: le_res_refl)
next
  case (Cons a acts)
  show ?case
  proof (cases a)
    case (Add k v)
    show ?thesis unfolding Add replay.simps by (intro le_res_bind Cons.IH le_res_refl)
  next
    case (Delete k)
    show ?thesis unfolding Delete replay.simps by (intro le_res_bind Cons.IH BTree_remove_mono)
  qed
qed

subsection \<open>Adding a key\<close>

lemma add_key_value_present:
  assumes "sorted_keys (keys p)" and "e \<in> set (keys p)" and "key e = k"
  shows "add_key_value p k v =
    Inr (Page (bottom p)
           ((keys p)[bisect_right (keys p) k - 1 := SmartKey k (val e @ [v])]) (children p))"
proof -
  let ?r = "bisect_right (keys p) k"
  have rle: "?r \<le> length (keys p)" using assms(1) by (rule bisect_right_le)
  from bisect_found [OF assms] have r: "0 < ?r" "keys p ! (?r - 1) = e" by simp_all
  have lt: "?r - 1 < length (keys p)" using r rle by simp
  have ne: "keys p \<noteq> []" using assms(2) by auto
  show ?thesis using r lt ne assms(3)
    by (simp add: add_key_value_def getitem_def setitem_def Let_def)
qed

lemma add_key_value_absent:
  assumes "sorted_keys (keys p)" and "k \<notin> key ` set (keys p)"
  shows "add_key_value p k v =
    Inr (Page (bottom p)
           (take (bisect_right (keys p) k) (keys p) @ SmartKey k [v] #
            drop (bisect_right (keys p) k) (keys p)) (children p))"
proof (cases "keys p = []")
  case True
  then show ?thesis by (simp add: add_key_value_def)
next
  case ne: False
  let ?r = "bisect_right (keys p) k"
  have rle: "?r \<le> length (keys p)" using assms(1) by (rule bisect_right_le)
  show ?thesis
  proof (cases "0 < ?r")
    case True
    then have lt: "?r - 1 < length (keys p)" using rle by simp
    have "keys p ! (?r - 1) \<in> set (keys p)" using lt by simp
    with assms(2) have "key (keys p ! (?r - 1)) \<noteq> k" by force
    with True lt ne show ?thesis
      by (simp add: add_key_value_def getitem_def list_insert_def Let_def)
  next
    case False
    with ne show ?thesis by (simp add: add_key_value_def list_insert_def Let_def)
  qed
qed

lemma lookup_replace:
  assumes "sorted_keys (xs @ e # ys)" and "key e' = key e"
  shows "sorted_keys (xs @ e' # ys)"
    and "lookup (xs @ e' # ys) = (lookup (xs @ e # ys))(key e \<mapsto> val e')"
proof -
  show s: "sorted_keys (xs @ e' # ys)"
    using assms by (simp add: sorted_keys_def)
  show "lookup (xs @ e' # ys) = (lookup (xs @ e # ys))(key e \<mapsto> val e')"
  proof
    fix k'
    have nx: "key e \<notin> key ` set xs" using assms(1) by (auto simp: sorted_keys_append)
    show "lookup (xs @ e' # ys) k' = ((lookup (xs @ e # ys))(key e \<mapsto> val e')) k'"
    proof (cases "k' = key e")
      case True
      have "lookup (xs @ e' # ys) (key e') = Some (val e')" using s by (intro lookup_mem) simp_all
      with True assms(2) show ?thesis by simp
    next
      case False
      with assms(2) show ?thesis
        by (simp add: lookup_append split: option.split) (simp add: lookup_def)
    qed
  qed
qed

lemma lookup_insert:
  fixes k :: "'k::linorder"
  assumes "sorted_keys (xs @ ys)" and "\<forall>a\<in>set xs. key a < k" and "\<forall>b\<in>set ys. k < key b"
  shows "sorted_keys (xs @ SmartKey k [v] # ys)"
    and "lookup (xs @ SmartKey k [v] # ys) = (lookup (xs @ ys))(k \<mapsto> [v])"
proof -
  show s: "sorted_keys (xs @ SmartKey k [v] # ys)"
    using assms by (auto simp: sorted_keys_append sorted_keys_Cons)
  show "lookup (xs @ SmartKey k [v] # ys) = (lookup (xs @ ys))(k \<mapsto> [v])"
  proof
    fix k'
    show "lookup (xs @ SmartKey k [v] # ys) k' = ((lookup (xs @ ys))(k \<mapsto> [v])) k'"
    proof (cases "k' = k")
      case True
      have "lookup (xs @ SmartKey k [v] # ys) (key (SmartKey k [v])) = Some (val (SmartKey k [v]))"
        using s by (intro lookup_mem) simp_all
      with True show ?thesis by simp
    next
      case False
      then show ?thesis
        by (simp add: lookup_append split: option.split) (simp add: lookup_def)
    qed
  qed
qed

lemma add_at_page:
  fixes p :: "('k::linorder, 'v) Page"
  assumes bt: "bt h p" and srt: "sorted_keys (inorder p)"
    and here: "bottom p \<or> k \<in> key ` set (keys p)"
    and add: "add_key_value p k v = Inr r"
  shows "bt h r \<and> sorted_keys (inorder r) \<and>
         lookup (inorder r) = naive_add (lookup (inorder p)) k v"
proof (cases "k \<in> key ` set (keys p)")
  case True
  then obtain e where e: "e \<in> set (keys p)" "key e = k" by auto
  let ?j = "bisect_right (keys p) k - 1"
  let ?e' = "SmartKey k (val e @ [v])"
  have sk: "sorted_keys (keys p)" using srt by (rule sorted_keys_page)
  have rle: "bisect_right (keys p) k \<le> length (keys p)" using sk by (rule bisect_right_le)
  from bisect_found [OF sk e] have j: "?j < length (keys p)" "keys p ! ?j = e" using rle by auto
  have r: "r = Page (bottom p) ((keys p)[?j := ?e']) (children p)"
    using add_key_value_present [OF sk e, of v] add by simp
  have "\<exists>xs ys. inorder p = xs @ e # ys \<and> inorder r = xs @ ?e' # ys"
  proof (cases h)
    case 0
    with bt have "children p = []" by simp
    then have "inorder p = keys p" "inorder r = (keys p)[?j := ?e']"
      by (simp_all add: r inorder_leaf)
    then have "inorder p = take ?j (keys p) @ e # drop (Suc ?j) (keys p)"
      "inorder r = take ?j (keys p) @ ?e' # drop (Suc ?j) (keys p)"
      using j id_take_nth_drop [OF j(1)] by (simp_all add: upd_conv_take_nth_drop)
    then show ?thesis by blast
  next
    case (Suc h')
    with bt have len: "length (children p) = Suc (length (keys p))" by simp
    have "inorder r = before p ?j @ inorder (children r ! ?j) @ keys r ! ?j #
        inorder (children r ! Suc ?j) @ after p (Suc ?j)"
      using len j(1) by (rule inorder_window_update) (simp_all add: r)
    then have "inorder r = (before p ?j @ inorder (children p ! ?j)) @ ?e' #
        (inorder (children p ! Suc ?j) @ after p (Suc ?j))"
      using j(1) by (simp add: r)
    moreover have "inorder p = (before p ?j @ inorder (children p ! ?j)) @ e #
        (inorder (children p ! Suc ?j) @ after p (Suc ?j))"
      using inorder_window [OF len j(1)] j(2) by simp
    ultimately show ?thesis by blast
  qed
  then obtain xs ys where io: "inorder p = xs @ e # ys" "inorder r = xs @ ?e' # ys" by blast
  have ke: "key ?e' = key e" using e(2) by simp
  have s: "sorted_keys (inorder r)"
    using lookup_replace(1) [OF _ ke, of xs ys] srt io by simp
  have "e \<in> set (inorder p)" using io(1) by simp
  then have "lookup (inorder p) k = Some (val e)" using lookup_mem [OF srt] e(2) by blast
  moreover have "lookup (inorder r) = (lookup (inorder p))(k \<mapsto> val e @ [v])"
    using lookup_replace(2) [OF _ ke, of xs ys] srt io e(2) by simp
  ultimately have l: "lookup (inorder r) = naive_add (lookup (inorder p)) k v"
    by (simp add: naive_add_def dom_def)
  have "bt h r"
  proof (cases h)
    case 0
    with bt show ?thesis by (simp add: r)
  next
    case (Suc h')
    with bt j(1) show ?thesis by (auto simp: r)
  qed
  with s l show ?thesis by simp
next
  case False
  with here have "bottom p" by simp
  with bt have h0: "h = 0" using bt_bottom by blast
  with bt have leaf: "children p = []" by simp
  then have io: "inorder p = keys p" by (rule inorder_leaf)
  with srt have sk: "sorted_keys (keys p)" by simp
  let ?i = "bisect_right (keys p) k"
  have r: "r = Page (bottom p) (take ?i (keys p) @ SmartKey k [v] # drop ?i (keys p)) (children p)"
    using add_key_value_absent [OF sk False, of v] add by simp
  have a: "sorted_keys (take ?i (keys p) @ drop ?i (keys p))" using sk by simp
  have b: "\<forall>a\<in>set (take ?i (keys p)). key a < k" using bisect_not_found [OF sk False] by blast
  have c: "\<forall>b\<in>set (drop ?i (keys p)). k < key b" using bisect_drop [OF sk] by blast
  have ior: "inorder r = take ?i (keys p) @ SmartKey k [v] # drop ?i (keys p)"
    using leaf by (simp add: r inorder_leaf)
  have "lookup (keys p) k = None" using False by (simp add: lookup_None_iff)
  then have "naive_add (lookup (inorder p)) k v = (lookup (keys p))(k \<mapsto> [v])"
    by (simp add: naive_add_def dom_def io)
  moreover have "lookup (inorder r) = (lookup (keys p))(k \<mapsto> [v])"
    using lookup_insert(2) [OF a b c, of v] ior by simp
  moreover have "sorted_keys (inorder r)" using lookup_insert(1) [OF a b c, of v] ior by simp
  moreover have "bt h r" using bt h0 by (simp add: r)
  ultimately show ?thesis by simp
qed

lemma split_root:
  assumes bt: "bt h r" and full: "is_full r"
  defines "l \<equiv> Page (bottom r) (take (DEGREE - 1) (keys r)) (take DEGREE (children r))"
    and "rt \<equiv> Page (bottom r) (drop DEGREE (keys r)) (drop DEGREE (children r))"
  shows "bt (Suc h) (Page False [keys r ! (DEGREE - 1)] [l, rt])"
    and "inorder (Page False [keys r ! (DEGREE - 1)] [l, rt]) = inorder r"
proof -
  from full have len: "length (keys r) = 2 * DEGREE - 1" by (simp add: is_full_def)
  have d: "DEGREE - 1 < length (keys r)" "Suc (DEGREE - 1) = DEGREE"
    using len DEGREE_ge2 by simp_all
  have kl: "length (keys l) = DEGREE - 1" "length (keys rt) = DEGREE - 1"
    using len DEGREE_ge2 by (simp_all add: l_def rt_def)
  have b: "bt h l \<and> bt h rt"
  proof (cases h)
    case 0
    with bt show ?thesis by (simp add: l_def rt_def)
  next
    case (Suc h')
    with bt have c: "length (children r) = 2 * DEGREE" using len DEGREE_ge2 by simp
    have "set (take DEGREE (children r)) \<subseteq> set (children r)"
      "set (drop DEGREE (children r)) \<subseteq> set (children r)"
      by (rule set_take_subset, rule set_drop_subset)
    with bt Suc c len DEGREE_ge2 show ?thesis
      by (auto simp: l_def rt_def)
  qed
  with kl show "bt (Suc h) (Page False [keys r ! (DEGREE - 1)] [l, rt])" by simp
  have "inorder l @ keys r ! (DEGREE - 1) # inorder rt = inorder r"
  proof (cases h)
    case 0
    with bt have "children r = []" by simp
    then show ?thesis using id_take_nth_drop [OF d(1)] d(2)
      by (simp add: l_def rt_def inorder_leaf)
  next
    case (Suc h')
    with bt have c: "length (children r) = 2 * DEGREE" using len DEGREE_ge2 by simp
    have "weave (map inorder (take DEGREE (children r)) @ map inorder (drop DEGREE (children r)))
        (take (DEGREE - 1) (keys r) @ keys r ! (DEGREE - 1) # drop DEGREE (keys r)) =
        weave (map inorder (take DEGREE (children r))) (take (DEGREE - 1) (keys r)) @
        keys r ! (DEGREE - 1) # weave (map inorder (drop DEGREE (children r))) (drop DEGREE (keys r))"
      using c d by (intro weave_append) simp
    moreover have "take (DEGREE - 1) (keys r) @ keys r ! (DEGREE - 1) # drop DEGREE (keys r) = keys r"
      using id_take_nth_drop [OF d(1)] d(2) by simp
    moreover have "map inorder (take DEGREE (children r)) @ map inorder (drop DEGREE (children r)) =
        map inorder (children r)"
      by (simp add: map_append [symmetric])
    ultimately have "weave (map inorder (children r)) (keys r) =
        weave (map inorder (take DEGREE (children r))) (take (DEGREE - 1) (keys r)) @
        keys r ! (DEGREE - 1) # weave (map inorder (drop DEGREE (children r))) (drop DEGREE (keys r))"
      by (simp only:)
    then show ?thesis
      by (simp add: l_def rt_def inorder_sel [of r])
  qed
  then show "inorder (Page False [keys r ! (DEGREE - 1)] [l, rt]) = inorder r" by simp
qed

lemma BTree_add_ok:
  assumes ok: "btree_ok t" and add: "BTree_add_key_value t k v = Inr t'"
  shows "btree_ok t' \<and> height (root t') \<le> Suc (height (root t)) \<and>
         lookup (inorder (root t')) = naive_add (lookup (inorder (root t))) k v"
proof -
  let ?h = "height (root t)"
  from ok have bt: "bt ?h (root t)" and srt: "sorted_keys (inorder (root t))"
    by (simp_all add: btree_ok_def)
  from add obtain r where put: "put (root t) k v = Inr r"
    by (auto simp: BTree_add_key_value_def bind_e_eq_Inr)
  from put_Inr [OF put] have here: "bottom (root t) \<or> k \<in> key ` set (keys (root t))"
    and a: "add_key_value (root t) k v = Inr r" by (simp_all add: is_external_def)
  from add_at_page [OF bt srt here a]
  have r: "bt ?h r" "sorted_keys (inorder r)"
    "lookup (inorder r) = naive_add (lookup (inorder (root t))) k v" by simp_all
  show ?thesis
  proof (cases "is_full r")
    case True
    let ?n = "Page False [keys r ! (DEGREE - 1)]
        [Page (bottom r) (take (DEGREE - 1) (keys r)) (take DEGREE (children r)),
         Page (bottom r) (drop DEGREE (keys r)) (drop DEGREE (children r))]"
    have t': "t' = \<lparr>root = ?n\<rparr>"
      using add put True split_full [OF True] by (simp add: BTree_add_key_value_def)
    note sp = split_root [OF r(1) True]
    have "btree_ok t'" using sp r(2) by (intro btree_okI [of "Suc ?h"]) (simp_all add: t')
    moreover have "height (root t') = Suc ?h" using bt_height [OF sp(1)] by (simp add: t')
    ultimately show ?thesis using sp(2) r(3) by (simp add: t')
  next
    case False
    then have t': "t' = \<lparr>root = r\<rparr>" using add put by (simp add: BTree_add_key_value_def)
    have "btree_ok t'" using r by (intro btree_okI [of ?h]) (simp_all add: t')
    moreover have "height (root t') = ?h" using bt_height [OF r(1)] by (simp add: t')
    ultimately show ?thesis using r(3) by (simp add: t')
  qed
qed

subsection \<open>The tree and the reference dictionary\<close>

lemma lookup_del: "lookup (del k es) = naive_remove (lookup es) k"
proof
  fix k'
  show "lookup (del k es) k' = naive_remove (lookup es) k k'"
    by (cases "k' = k") (auto simp: naive_remove_def lookup_del_other dom_def)
qed

lemma btree_ok_init: "btree_ok BTree_init"
  by (simp add: btree_ok_def BTree_init_def sorted_keys_def)

lemma replay_refines_fuel:
  "btree_ok t \<Longrightarrow> 2 * (height (root t) + length acts) < n \<Longrightarrow> replay n t acts = Inr t' \<Longrightarrow>
   btree_ok t' \<and> lookup (inorder (root t')) = naive_replay (lookup (inorder (root t))) acts"
proof (induction acts arbitrary: t)
  case Nil
  then show ?case by simp
next
  case (Cons a acts)
  show ?case
  proof (cases a)
    case (Add k v)
    with Cons.prems(3) obtain t1 where t1: "BTree_add_key_value t k v = Inr t1"
      "replay n t1 acts = Inr t'" by (auto simp: bind_e_eq_Inr)
    from BTree_add_ok [OF Cons.prems(1) t1(1)]
    have ok: "btree_ok t1" "height (root t1) \<le> Suc (height (root t))"
      "lookup (inorder (root t1)) = naive_add (lookup (inorder (root t))) k v" by simp_all
    have "2 * (height (root t1) + length acts) < n" using ok(2) Cons.prems(2) by simp
    from Cons.IH [OF ok(1) this t1(2)] show ?thesis using ok(3) Add by simp
  next
    case (Delete k)
    with Cons.prems(3) obtain t1 where t1: "BTree_remove n t k = Inr t1"
      "replay n t1 acts = Inr t'" by (auto simp: bind_e_eq_Inr)
    have "2 * height (root t) < n" using Cons.prems(2) by simp
    from BTree_remove_ok [OF Cons.prems(1) this, of k] t1(1)
    have ok: "btree_ok t1" "inorder (root t1) = del k (inorder (root t))"
      "height (root t1) \<le> height (root t)" by auto
    have "2 * (height (root t1) + length acts) < n" using ok(3) Cons.prems(2) by simp
    from Cons.IH [OF ok(1) this t1(2)] show ?thesis using ok(2) Delete by (simp add: lookup_del)
  qed
qed

text \<open>Whenever the driver's loop returns, the tree answers \<open>find\<close> as the dictionary does.\<close>

lemma replay_refines:
  assumes "btree_ok t" and "replay n t acts = Inr t'"
  shows "btree_ok t' \<and> lookup (inorder (root t')) = naive_replay (lookup (inorder (root t))) acts"
proof -
  let ?d = "Suc (2 * (height (root t) + length acts))"
  have "replay (n + ?d) t acts = Inr t'"
    using replay_mono [of n t acts ?d] assms(2) by (simp add: le_res_def)
  moreover have "2 * (height (root t) + length acts) < n + ?d" by simp
  ultimately show ?thesis using assms(1) by (intro replay_refines_fuel)
qed

lemma naive_replay_added:
  "Delete k \<notin> set acts \<Longrightarrow>
   naive_replay tree acts k =
     (case tree k of
        None \<Rightarrow> if added k acts = [] then None else Some (added k acts)
      | Some vs \<Rightarrow> Some (vs @ added k acts))"
proof (induction acts arbitrary: tree)
  case Nil
  then show ?case by (simp split: option.split)
next
  case (Cons a acts)
  show ?case
  proof (cases a)
    case (Add k' v)
    with Cons show ?thesis
      by (auto simp: naive_add_def dom_def split: option.split)
  next
    case (Delete k')
    with Cons show ?thesis
      by (auto simp: naive_remove_def dom_def split: option.split)
  qed
qed

section \<open>The fresh tree\<close>

text \<open>
  Claim C9. On a freshly created tree, whose root is an empty leaf, \<open>find\<close> of any key
  returns absence and does not fail, and \<open>remove\<close> of any key completes and leaves the
  root the same empty leaf. (\<open>Suc n\<close>: the interpreter allows at least one call.)
\<close>

theorem fresh_tree_find_remove:
  "find_key BTree_init k = Inr None \<and> BTree_remove (Suc n) BTree_init k = Inr BTree_init"
  by (simp add: find_key_def BTree_remove_def BTree_init_def remove.simps(2) is_external_def
        find_page.simps)

section \<open>Splitting a full page\<close>

text \<open>
  Claim C4, as amended. For every full page (\<open>2 * DEGREE - 1\<close> entries), \<open>split\<close> promotes
  the median entry \<open>keys[DEGREE - 1]\<close>, keeps the first \<open>DEGREE - 1\<close> entries in the page,
  and moves the entries from index \<open>DEGREE\<close> on, which are the last \<open>DEGREE - 1\<close> entries,
  to a new page of the same kind; the page keeps its first \<open>DEGREE\<close> children and the
  new page gets the remaining ones (\<open>DEGREE\<close> of them for an internal page); the promoted
  entry and the new page are returned.
\<close>

theorem split_halves:
  assumes "is_full self"
  shows "split self =
           Inr (Page (bottom self) (take (DEGREE - 1) (keys self)) (take DEGREE (children self)),
                keys self ! (DEGREE - 1),
                Page (bottom self) (drop DEGREE (keys self)) (drop DEGREE (children self)))
         \<and> keys self = take (DEGREE - 1) (keys self) @ [keys self ! (DEGREE - 1)] @ drop DEGREE (keys self)
         \<and> length (take (DEGREE - 1) (keys self)) = DEGREE - 1
         \<and> length (drop DEGREE (keys self)) = DEGREE - 1
         \<and> children self = take DEGREE (children self) @ drop DEGREE (children self)
         \<and> (length (children self) = length (keys self) + 1 \<longrightarrow>
              length (take DEGREE (children self)) = DEGREE \<and>
              length (drop DEGREE (children self)) = DEGREE)"
proof -
  from assms have len: "length (keys self) = DEGREE * 2 - 1" by (simp add: is_full_def)
  then have lt: "DEGREE - 1 < length (keys self)" using DEGREE_pos by linarith
  have S: "Suc (DEGREE - 1) = DEGREE" using DEGREE_pos by simp
  have "split self = Inr (Page (bottom self) (take (DEGREE - 1) (keys self)) (take DEGREE (children self)),
                keys self ! (DEGREE - 1),
                Page (bottom self) (drop DEGREE (keys self)) (drop DEGREE (children self)))"
    using assms by (rule split_full)
  moreover have "keys self = take (DEGREE - 1) (keys self) @ [keys self ! (DEGREE - 1)] @ drop DEGREE (keys self)"
    using id_take_nth_drop [OF lt] S by simp
  moreover have "length (take (DEGREE - 1) (keys self)) = DEGREE - 1" using lt by simp
  moreover have "length (drop DEGREE (keys self)) = DEGREE - 1" using len by simp
  moreover have "length (children self) = length (keys self) + 1 \<longrightarrow>
              length (take DEGREE (children self)) = DEGREE \<and>
              length (drop DEGREE (children self)) = DEGREE" using len DEGREE_pos by auto
  ultimately show ?thesis by simp
qed

theorem split_halves_witness:
  "is_full full_leaf \<and>
   split full_leaf =
     Inr (Page True (map (\<lambda>i. SmartKey (int i) [i]) [1..<16]) [],
          SmartKey 16 [16],
          Page True (map (\<lambda>i. SmartKey (int i) [i]) [17..<32]) [])"
proof -
  have h: "is_full full_leaf" by code_simp
  have "split full_leaf =
           Inr (Page (bottom full_leaf) (take (DEGREE - 1) (keys full_leaf)) (take DEGREE (children full_leaf)),
                keys full_leaf ! (DEGREE - 1),
                Page (bottom full_leaf) (drop DEGREE (keys full_leaf)) (drop DEGREE (children full_leaf)))"
    by (rule split_halves [OF h, THEN conjunct1])
  also have "\<dots> = Inr (Page True (map (\<lambda>i. SmartKey (int i) [i]) [1..<16]) [],
          SmartKey 16 [16],
          Page True (map (\<lambda>i. SmartKey (int i) [i]) [17..<32]) [])"
    by code_simp
  finally show ?thesis using h by (rule conjI [rotated])
qed

text \<open>
  The claim as stated gives the new page the last \<open>DEGREE\<close> entries. On the full leaf of
  the keys 1 to 31 the new page holds 15 entries, not the last 16.
\<close>

theorem split_last_DEGREE_counterexample:
  "is_full full_leaf \<and>
   map_sum id (\<lambda>(l, m, r). keys r) (split full_leaf)
     \<noteq> Inr (drop (length (keys full_leaf) - DEGREE) (keys full_leaf)) \<and>
   map_sum id (\<lambda>(l, m, r). length (keys r)) (split full_leaf) = Inr 15 \<and> DEGREE = 16"
  by code_simp

section \<open>Insertion below the root\<close>

text \<open>
  Claim C1 says that no insertion raises, also when it descends from an internal root
  into a child. After the keys 1 to 31 the root is internal with the two leaves below
  it, and adding the key 32 descends into the right leaf: \<open>_put\<close> then calls
  \<open>nxt.close()\<close>, which class \<open>Page\<close> does not define, and the insertion raises
  \<open>AttributeError\<close>.
\<close>

theorem put_below_root_raises:
  "bind_e (replay 0 BTree_init (ascending 31)) (\<lambda>t. Inr (print_tree t)) =
     Inr [[[16]], [map int [1..<16], map int [17..<32]]] \<and>
   bind_e (replay 0 BTree_init (ascending 31)) (\<lambda>t. BTree_add_key_value t 32 32) =
     Inl AttributeError"
  by code_simp

section \<open>Splitting the root\<close>

text \<open>
  Claim C7. When the traversal \<open>_put\<close> has returned the root \<open>r\<close>, the root is split
  if and only if it is full; its two halves then become the children of a new
  internal root that holds the promoted entry alone, and the level-order dump gets
  one more line exactly in that case. The witness replays ascending keys into an
  empty tree: the dump has one line after each of the first 30 insertions and two
  lines after the 31st.
\<close>

theorem root_split_iff_full:
  assumes "put (root t) k v = Inr r"
  shows "BTree_add_key_value t k v =
           (if is_full r then
              Inr \<lparr>root = Page False [keys r ! (DEGREE - 1)]
                     [Page (bottom r) (take (DEGREE - 1) (keys r)) (take DEGREE (children r)),
                      Page (bottom r) (drop DEGREE (keys r)) (drop DEGREE (children r))]\<rparr>
            else Inr \<lparr>root = r\<rparr>)
         \<and> map_sum id (\<lambda>t'. length (print_tree t')) (BTree_add_key_value t k v) =
             Inr (length (print_tree t) + (if is_full r then 1 else 0))"
proof -
  from put_Inr [OF assms] have "add_key_value (root t) k v = Inr r" by simp
  from add_key_value_frame [OF this] have ch: "children r = children (root t)" by simp
  have same: "length (levels [r]) = length (levels [root t])"
    by (simp add: levels_Cons ch)
  show ?thesis
  proof (cases "is_full r")
    case True
    have sp: "split r =
           Inr (Page (bottom r) (take (DEGREE - 1) (keys r)) (take DEGREE (children r)),
                keys r ! (DEGREE - 1),
                Page (bottom r) (drop DEGREE (keys r)) (drop DEGREE (children r)))"
      using True by (rule split_full)
    have eq: "BTree_add_key_value t k v =
        Inr \<lparr>root = Page False [keys r ! (DEGREE - 1)]
                     [Page (bottom r) (take (DEGREE - 1) (keys r)) (take DEGREE (children r)),
                      Page (bottom r) (drop DEGREE (keys r)) (drop DEGREE (children r))]\<rparr>"
      using assms True sp by (simp add: BTree_add_key_value_def)
    have "length (levels [Page False [keys r ! (DEGREE - 1)]
                     [Page (bottom r) (take (DEGREE - 1) (keys r)) (take DEGREE (children r)),
                      Page (bottom r) (drop DEGREE (keys r)) (drop DEGREE (children r))]])
        = Suc (length (levels [r]))"
      by (simp add: levels_Cons)
    with eq True same show ?thesis by (simp add: print_tree_def)
  next
    case False
    with assms same show ?thesis by (simp add: BTree_add_key_value_def print_tree_def)
  qed
qed

theorem root_split_iff_full_witness:
  "put (root (leaf_upto 30)) 31 31 = Inr full_leaf \<and> is_full full_leaf \<and>
   BTree_add_key_value (leaf_upto 30) 31 31 =
     Inr \<lparr>root = Page False [SmartKey 16 [16]]
            [Page True (map (\<lambda>i. SmartKey (int i) [i]) [1..<16]) [],
             Page True (map (\<lambda>i. SmartKey (int i) [i]) [17..<32]) []]\<rparr> \<and>
   map (\<lambda>n. map_sum id print_tree (replay 0 BTree_init (ascending n))) [29, 30, 31] =
     [Inr [[map int [1..<30]]], Inr [[map int [1..<31]]],
      Inr [[[16]], [map int [1..<16], map int [17..<32]]]] \<and>
   map (\<lambda>n. map_sum id (\<lambda>t. length (print_tree t)) (replay 0 BTree_init (ascending n)))
     [0..<32] = map Inr (replicate 31 1 @ [2])"
proof -
  have h: "put (root (leaf_upto 30)) 31 31 = Inr full_leaf" by code_simp
  have f: "is_full full_leaf" by code_simp
  have "BTree_add_key_value (leaf_upto 30) 31 31 =
           (if is_full full_leaf then
              Inr \<lparr>root = Page False [keys full_leaf ! (DEGREE - 1)]
                     [Page (bottom full_leaf) (take (DEGREE - 1) (keys full_leaf)) (take DEGREE (children full_leaf)),
                      Page (bottom full_leaf) (drop DEGREE (keys full_leaf)) (drop DEGREE (children full_leaf))]\<rparr>
            else Inr \<lparr>root = full_leaf\<rparr>)"
    by (rule root_split_iff_full [OF h, THEN conjunct1])
  also have "\<dots> = Inr \<lparr>root = Page False [SmartKey 16 [16]]
            [Page True (map (\<lambda>i. SmartKey (int i) [i]) [1..<16]) [],
             Page True (map (\<lambda>i. SmartKey (int i) [i]) [17..<32]) []]\<rparr>"
    by code_simp
  finally have a: "BTree_add_key_value (leaf_upto 30) 31 31 =
     Inr \<lparr>root = Page False [SmartKey 16 [16]]
            [Page True (map (\<lambda>i. SmartKey (int i) [i]) [1..<16]) [],
             Page True (map (\<lambda>i. SmartKey (int i) [i]) [17..<32]) []]\<rparr>" .
  have b: "map (\<lambda>n. map_sum id print_tree (replay 0 BTree_init (ascending n))) [29, 30, 31] =
     [Inr [[map int [1..<30]]], Inr [[map int [1..<31]]],
      Inr [[[16]], [map int [1..<16], map int [17..<32]]]]"
    by code_simp
  have c: "map (\<lambda>n. map_sum id (\<lambda>t. length (print_tree t)) (replay 0 BTree_init (ascending n)))
     [0..<32] = map Inr (replicate 31 1 @ [2])"
    by code_simp
  from h f a b c show ?thesis by blast
qed

section \<open>Adding to a page\<close>

text \<open>
  Claim C10. For every page whose entries are strictly increasing by key,
  \<open>add_key_value\<close> returns, and the entries of the page are strictly increasing
  afterwards: when the key was present the new value is appended to the value list of
  its entry and nothing else changes, otherwise a new entry with the one-element
  value list is inserted at the bisection index.
\<close>

theorem add_key_value_sorted:
  assumes "sorted_keys (keys self)"
  shows "\<exists>r. add_key_value self k v = Inr r \<and> sorted_keys (keys r) \<and>
           bottom r = bottom self \<and> children r = children self \<and>
           (if k \<in> key ` set (keys self) then
              keys r = map (\<lambda>e. if key e = k then SmartKey (key e) (val e @ [v]) else e)
                         (keys self)
            else
              keys r = take (bisect_right (keys self) k) (keys self) @ [SmartKey k [v]] @
                         drop (bisect_right (keys self) k) (keys self))"
proof -
  let ?ks = "keys self"
  let ?r = "bisect_right ?ks k"
  let ?ins = "take ?r ?ks @ [SmartKey k [v]] @ drop ?r ?ks"
  let ?upd = "map (\<lambda>e. if key e = k then SmartKey (key e) (val e @ [v]) else e) ?ks"
  have rle: "?r \<le> length ?ks" using assms by (rule bisect_right_le)
  show ?thesis
  proof (cases "k \<in> key ` set ?ks")
    case True
    then obtain e where e: "e \<in> set ?ks" "key e = k" by auto
    from bisect_found [OF assms e] have r: "0 < ?r" "?ks ! (?r - 1) = e" by simp_all
    have lt: "?r - 1 < length ?ks" using r rle by simp
    have ne: "?ks \<noteq> []" using e by auto
    have res: "add_key_value self k v =
        Inr (Page (bottom self) (?ks[?r - 1 := SmartKey (key e) (val e @ [v])]) (children self))"
      using r lt ne e by (simp add: add_key_value_def getitem_def setitem_def Let_def)
    have eq: "?ks[?r - 1 := SmartKey (key e) (val e @ [v])] = ?upd"
    proof (rule nth_equalityI)
      fix j assume "j < length (?ks[?r - 1 := SmartKey (key e) (val e @ [v])])"
      then have j: "j < length ?ks" by simp
      show "?ks[?r - 1 := SmartKey (key e) (val e @ [v])] ! j = ?upd ! j"
      proof (cases "j = ?r - 1")
        case True
        with j r e show ?thesis by simp
      next
        case False
        then have "key (?ks ! j) \<noteq> key (?ks ! (?r - 1))"
          using sorted_keys_nth_eq [OF assms j lt] by blast
        with False j r e show ?thesis by simp
      qed
    qed simp
    have "map key ?upd = map key ?ks" by (induction ?ks) auto
    then have "sorted_keys ?upd" using assms unfolding sorted_keys_def by (simp only:)
    with res eq True show ?thesis by simp
  next
    case False
    have below: "\<forall>e\<in>set (take ?r ?ks). key e < k"
      using bisect_not_found [OF assms False] by blast
    have above: "\<forall>e\<in>set (drop ?r ?ks). k < key e"
      using bisect_drop [OF assms] by blast
    have res: "add_key_value self k v = Inr (Page (bottom self) ?ins (children self))"
    proof (cases "?ks = []")
      case True
      then show ?thesis by (simp add: add_key_value_def)
    next
      case ne: False
      show ?thesis
      proof (cases "0 < ?r")
        case True
        then have lt: "?r - 1 < length ?ks" using rle by simp
        have "?ks ! (?r - 1) \<in> set ?ks" using lt by simp
        with False have "key (?ks ! (?r - 1)) \<noteq> k" by force
        with True lt ne show ?thesis
          by (simp add: add_key_value_def getitem_def list_insert_def Let_def)
      next
        case False
        with ne show ?thesis by (simp add: add_key_value_def list_insert_def Let_def)
      qed
    qed
    have "sorted_keys (take ?r ?ks) \<and> sorted_keys (drop ?r ?ks)"
      using assms sorted_keys_append [of "take ?r ?ks" "drop ?r ?ks"] by simp
    then have "sorted_keys ?ins" using below above
      by (fastforce simp: sorted_keys_append sorted_keys_Cons)
    with res False show ?thesis by simp
  qed
qed

theorem add_key_value_sorted_witness:
  "sorted_keys (keys (Page True [SmartKey (1::int) [5::nat], SmartKey 3 [2]] [])) \<and>
   add_key_value (Page True [SmartKey (1::int) [5::nat], SmartKey 3 [2]] []) 1 6 =
     Inr (Page True [SmartKey 1 [5, 6], SmartKey 3 [2]] []) \<and>
   sorted_keys [SmartKey (1::int) [5, 6::nat], SmartKey 3 [2]] \<and>
   add_key_value (Page True [SmartKey (1::int) [5::nat], SmartKey 3 [2]] []) 2 7 =
     Inr (Page True [SmartKey 1 [5], SmartKey 2 [7], SmartKey 3 [2]] []) \<and>
   sorted_keys [SmartKey (1::int) [5::nat], SmartKey 2 [7], SmartKey 3 [2]]"
proof -
  let ?p = "Page True [SmartKey (1::int) [5::nat], SmartKey 3 [2]] []"
  have h: "sorted_keys (keys ?p)" by (simp add: sorted_keys_def)
  from add_key_value_sorted [OF h, of 1 6] obtain r
    where r: "add_key_value ?p 1 6 = Inr r" "sorted_keys (keys r)" by blast
  have a: "add_key_value ?p 1 6 = Inr (Page True [SmartKey 1 [5, 6], SmartKey 3 [2]] [])"
    by code_simp
  from r(1) a have "r = Page True [SmartKey 1 [5, 6], SmartKey 3 [2]] []" by simp
  with r(2) have sa: "sorted_keys [SmartKey (1::int) [5, 6::nat], SmartKey 3 [2]]" by simp
  from add_key_value_sorted [OF h, of 2 7] obtain r'
    where r': "add_key_value ?p 2 7 = Inr r'" "sorted_keys (keys r')" by blast
  have b: "add_key_value ?p 2 7 =
      Inr (Page True [SmartKey 1 [5], SmartKey 2 [7], SmartKey 3 [2]] [])"
    by code_simp
  from r'(1) b have "r' = Page True [SmartKey 1 [5], SmartKey 2 [7], SmartKey 3 [2]] []"
    by simp
  with r'(2) have sb: "sorted_keys [SmartKey (1::int) [5::nat], SmartKey 2 [7], SmartKey 3 [2]]"
    by simp
  from h a sa b sb show ?thesis by blast
qed

section \<open>Removing a key\<close>

text \<open>
  Claim C3. For every well-formed tree and every key, \<open>remove\<close> returns (the bound on
  nested calls being more than twice the height of the tree), the tree is well formed
  afterwards, and a following \<open>find\<close> of the key returns absence; in particular so for
  every key that was present, whose values are gone with it.
\<close>

theorem remove_then_find_absent:
  assumes "btree_ok t" and "2 * height (root t) < n"
  shows "\<exists>t'. BTree_remove n t k = Inr t' \<and> btree_ok t' \<and> find_key t' k = Inr None"
proof -
  from BTree_remove_ok [OF assms, of k] obtain t'
    where t': "BTree_remove n t k = Inr t'" "btree_ok t'"
      "inorder (root t') = del k (inorder (root t))" by blast
  then have "find_key t' k = Inr None" by (simp add: find_key_lookup)
  with t' show ?thesis by blast
qed

theorem remove_then_find_absent_witness:
  "btree_ok three_leaves \<and> 2 * height (root three_leaves) < 5 \<and>
   find_key three_leaves 5 = Inr (Some [5]) \<and>
   map_sum id (\<lambda>t. find_key t 5) (BTree_remove 5 three_leaves 5) = Inr (Inr None) \<and>
   find_key three_leaves 16 = Inr (Some [16]) \<and>
   map_sum id (\<lambda>t. find_key t 16) (BTree_remove 5 three_leaves 16) = Inr (Inr None)"
proof -
  have ok: "btree_ok three_leaves" by (rule three_leaves_ok)
  have fuel: "2 * height (root three_leaves) < 5" by code_simp
  from remove_then_find_absent [OF ok fuel, of 5]
  have a: "map_sum id (\<lambda>t. find_key t 5) (BTree_remove 5 three_leaves 5) = Inr (Inr None)"
    by auto
  from remove_then_find_absent [OF ok fuel, of 16]
  have b: "map_sum id (\<lambda>t. find_key t 16) (BTree_remove 5 three_leaves 16) = Inr (Inr None)"
    by auto
  have c: "find_key three_leaves 5 = Inr (Some [5])" by code_simp
  have d: "find_key three_leaves 16 = Inr (Some [16])" by code_simp
  from ok fuel a b c d show ?thesis by blast
qed

text \<open>
  Claim C8. For every well-formed tree and every key that is not in it, \<open>remove\<close>
  returns without an error and \<open>find\<close> gives for every key the result it gave before
  the call.
\<close>

theorem remove_absent_unchanged:
  assumes "btree_ok t" and "2 * height (root t) < n" and "find_key t k = Inr None"
  shows "\<exists>t'. BTree_remove n t k = Inr t' \<and> (\<forall>k'. find_key t' k' = find_key t k')"
proof -
  from BTree_remove_ok [OF assms(1,2), of k] obtain t'
    where t': "BTree_remove n t k = Inr t'" "btree_ok t'"
      "inorder (root t') = del k (inorder (root t))" by blast
  from assms(1,3) have "lookup (inorder (root t)) k = None" by (simp add: find_key_lookup)
  then have "del k (inorder (root t)) = inorder (root t)"
    by (simp add: lookup_None_iff del_notin)
  with t' assms(1) have "find_key t' k' = find_key t k'" for k'
    by (simp add: find_key_lookup)
  with t'(1) show ?thesis by blast
qed

theorem remove_absent_unchanged_witness:
  "btree_ok three_leaves \<and> 2 * height (root three_leaves) < 5 \<and>
   find_key three_leaves 100 = Inr None \<and>
   map_sum id (\<lambda>t. map (find_key t) [1, 16, 17, 33, 48, 100]) (BTree_remove 5 three_leaves 100) =
     Inr (map (find_key three_leaves) [1, 16, 17, 33, 48, 100])"
proof -
  have ok: "btree_ok three_leaves" by (rule three_leaves_ok)
  have fuel: "2 * height (root three_leaves) < 5" by code_simp
  have absent: "find_key three_leaves 100 = Inr None" by code_simp
  from remove_absent_unchanged [OF ok fuel absent] obtain t'
    where "BTree_remove 5 three_leaves 100 = Inr t'" "\<forall>k'. find_key t' k' = find_key three_leaves k'"
    by blast
  then have "map_sum id (\<lambda>t. map (find_key t) [1, 16, 17, 33, 48, 100])
      (BTree_remove 5 three_leaves 100) = Inr (map (find_key three_leaves) [1, 16, 17, 33, 48, 100])"
    by simp
  with ok fuel absent show ?thesis by blast
qed

section \<open>Removing a separator\<close>

text \<open>
  Claim C5. An internal page of a well-formed tree holds the key to remove as its entry
  \<open>i\<close>. The predecessor found in the child left of the entry is the last entry of that
  child's subtree in key order, the successor found in the child right of it is the
  first entry of that child's subtree, and in the key order of the page's subtree they
  stand directly before and after the entry. If the left child has more than
  \<open>DEGREE - 1\<close> entries, the entry is replaced by that predecessor and the predecessor's
  key is removed from the left child. Else, if the right child has more than
  \<open>DEGREE - 1\<close> entries, the same is done with the successor. Else the two children are
  merged around the entry and the key is removed from the merged page; when the page
  is then left without entries, the merged page is returned instead of it, and
  \<open>BTree.remove\<close> makes the returned page the root. The witness removes the root's key
  from trees with two levels below the root, where the predecessor 271 and the
  successor 257 come from leaves and differ from the last key 256 and the first key
  272 of the internal child, and from the trees with leaves below the root.
\<close>

theorem remove_separator:
  assumes "bt (Suc h) self" and "sorted_keys (keys self)"
    and "e \<in> set (keys self)" and "key e = k"
  shows
    "(let i = bisect_right (keys self) k - 1;
          pred_ch = children self ! i;
          succ_ch = children self ! Suc i;
          kp = last (inorder pred_ch);
          ks = hd (inorder succ_ch);
          merged = Page (bottom pred_ch \<and> bottom succ_ch)
                     (keys pred_ch @ e # keys succ_ch) (children pred_ch @ children succ_ch);
          rest = take i (keys self) @ drop (Suc i) (keys self)
      in
      keys self ! i = e \<and>
      (\<exists>xs ys. inorder self = xs @ kp # e # ks # ys) \<and>
      find_predecessor pred_ch = Inr kp \<and>
      find_successor succ_ch = Inr ks \<and>
      remove (Suc n) self k =
        (if DEGREE - 1 < length (keys pred_ch) then
           bind_e (remove n pred_ch (key kp)) (\<lambda>(pred_ch', _).
             let self' = Page (bottom self) ((keys self)[i := kp])
                           ((children self)[i := pred_ch'])
             in Inr (self', self'))
         else if DEGREE - 1 < length (keys succ_ch) then
           bind_e (remove n succ_ch (key ks)) (\<lambda>(succ_ch', _).
             let self' = Page (bottom self) ((keys self)[i := ks])
                           ((children self)[Suc i := succ_ch'])
             in Inr (self', self'))
         else
           bind_e (remove n merged k) (\<lambda>(merged', _).
             let self' = Page (bottom self) rest
                           (take i (children self) @ merged' #
                            drop (Suc (Suc i)) (children self))
             in if rest = [] then Inr (self', merged') else Inr (self', self'))) \<and>
      BTree_remove (Suc n) \<lparr>root = self\<rparr> k =
        bind_e (remove (Suc n) self k) (\<lambda>(_, returned). Inr \<lparr>root = returned\<rparr>))"
proof -
  let ?r = "bisect_right (keys self) k"
  define i where "i = ?r - 1"
  define pred_ch where "pred_ch = children self ! i"
  define succ_ch where "succ_ch = children self ! Suc i"
  note nb = bt_node(1) [OF assms(1)] and len = bt_node(3) [OF assms(1)]
  have rle: "?r \<le> length (keys self)" using assms(2) by (rule bisect_right_le)
  from bisect_found [OF assms(2,3,4)] have r: "0 < ?r" and ei: "keys self ! i = e"
    by (simp_all add: i_def)
  have il: "i < length (keys self)" using r rle by (simp add: i_def)
  have pc: "bt h pred_ch" "DEGREE - 1 \<le> length (keys pred_ch)"
    using bt_node(4) [OF assms(1), of i] il by (simp_all add: pred_ch_def)
  have sc: "bt h succ_ch" "DEGREE - 1 \<le> length (keys succ_ch)"
    using bt_node(4) [OF assms(1), of "Suc i"] il by (simp_all add: succ_ch_def)
  note fp = find_predecessor_last [OF pc] and fs = find_successor_hd [OF sc]
  have pn: "inorder pred_ch \<noteq> []" using bt_nonempty [OF pc] by simp
  have sn: "inorder succ_ch \<noteq> []" using bt_nonempty [OF sc] by simp
  have "inorder self = (before self i @ butlast (inorder pred_ch)) @
      last (inorder pred_ch) # e # hd (inorder succ_ch) # (tl (inorder succ_ch) @ after self (Suc i))"
    using inorder_window [OF len il] pn sn ei by (simp add: pred_ch_def succ_ch_def)
  then have adj: "\<exists>xs ys. inorder self =
      xs @ last (inorder pred_ch) # e # hd (inorder succ_ch) # ys" by blast
  note eq = remove_found_eq [OF nb assms(2,3,4) len, of n, unfolded Let_def, folded i_def,
      folded pred_ch_def succ_ch_def]
  have mg: "merge self i pred_ch succ_ch =
      Inr (Page (bottom self) (take i (keys self) @ drop (Suc i) (keys self))
             (take i (children self) @
              Page (bottom pred_ch \<and> bottom succ_ch) (keys pred_ch @ e # keys succ_ch)
                (children pred_ch @ children succ_ch) #
              drop (Suc (Suc i)) (children self)),
           Page (bottom pred_ch \<and> bottom succ_ch) (keys pred_ch @ e # keys succ_ch)
             (children pred_ch @ children succ_ch))"
    using merge_eq [OF il len, of pred_ch succ_ch] ei by simp
  have up: "(take i (children self) @ m # drop (Suc (Suc i)) (children self))[i := m'] =
      take i (children self) @ m' # drop (Suc (Suc i)) (children self)" for m m'
    using il len by (intro update_at_take) simp
  have d: "DEGREE - 1 < x \<longleftrightarrow> DEGREE \<le> x" for x using DEGREE_pos by auto
  have "remove (Suc n) self k =
        (if DEGREE - 1 < length (keys pred_ch) then
           bind_e (remove n pred_ch (key (last (inorder pred_ch)))) (\<lambda>(pred_ch', _).
             let self' = Page (bottom self) ((keys self)[i := last (inorder pred_ch)])
                           ((children self)[i := pred_ch'])
             in Inr (self', self'))
         else if DEGREE - 1 < length (keys succ_ch) then
           bind_e (remove n succ_ch (key (hd (inorder succ_ch)))) (\<lambda>(succ_ch', _).
             let self' = Page (bottom self) ((keys self)[i := hd (inorder succ_ch)])
                           ((children self)[Suc i := succ_ch'])
             in Inr (self', self'))
         else
           bind_e (remove n (Page (bottom pred_ch \<and> bottom succ_ch)
                     (keys pred_ch @ e # keys succ_ch) (children pred_ch @ children succ_ch)) k)
             (\<lambda>(merged', _).
             let self' = Page (bottom self) (take i (keys self) @ drop (Suc i) (keys self))
                           (take i (children self) @ merged' #
                            drop (Suc (Suc i)) (children self))
             in if take i (keys self) @ drop (Suc i) (keys self) = [] then Inr (self', merged')
                else Inr (self', self')))"
    unfolding eq d
    by (simp only: mg fp fs bind_e_Inr prod.case Let_def Page.sel up length_0_conv)
  then show ?thesis
    using ei adj fp fs
    by (simp add: Let_def BTree_remove_def i_def pred_ch_def succ_ch_def)
qed

theorem remove_separator_witness:
  "bt 2 (root (two_levels 17 16)) \<and> sorted_keys (keys (root (two_levels 17 16))) \<and>
   item 272 \<in> set (keys (root (two_levels 17 16))) \<and> key (item 272) = 272 \<and>
   find_predecessor (node_from 0 17) = Inr (item 271) \<and>
   last (keys (node_from 0 17)) = item 256 \<and>
   BTree_remove (Suc 4) (two_levels 17 16) 272 =
     Inr \<lparr>root = Page False [item 271]
            [Page False (map (\<lambda>j. item (16 * j)) [1..15])
               (map (\<lambda>j. leaf_from (16 * j)) [0..14] @ [Page True (map item [241..270]) []]),
             node_from 272 16]\<rparr> \<and>
   bt 2 (root (two_levels 16 17)) \<and> sorted_keys (keys (root (two_levels 16 17))) \<and>
   item 256 \<in> set (keys (root (two_levels 16 17))) \<and> key (item 256) = 256 \<and>
   find_successor (node_from 256 17) = Inr (item 257) \<and>
   hd (keys (node_from 256 17)) = item 272 \<and>
   BTree_remove (Suc 4) (two_levels 16 17) 256 =
     Inr \<lparr>root = Page False [item 257]
            [node_from 0 16,
             Page False (map (\<lambda>j. item (256 + 16 * j)) [2..16])
               (Page True (map item [258..287]) [] #
                map (\<lambda>j. leaf_from (256 + 16 * j)) [2..16])]\<rparr> \<and>
   bt 1 (root three_leaves) \<and> sorted_keys (keys (root three_leaves)) \<and>
   entry 33 \<in> set (keys (root three_leaves)) \<and> key (entry 33) = 33 \<and>
   entry 16 \<in> set (keys (root three_leaves)) \<and> key (entry 16) = 16 \<and>
   BTree_remove (Suc 4) three_leaves 33 =
     Inr \<lparr>root = Page False [entry 16, entry 32]
            [Page True (map entry [1..<16]) [],
             Page True (map entry [17..<32]) [],
             Page True (map entry [34..<49]) []]\<rparr> \<and>
   BTree_remove (Suc 4) three_leaves 16 =
     Inr \<lparr>root = Page False [entry 17, entry 33]
            [Page True (map entry [1..<16]) [],
             Page True (map entry [18..<33]) [],
             Page True (map entry [34..<49]) []]\<rparr> \<and>
   bt 1 (root two_leaves) \<and> sorted_keys (keys (root two_leaves)) \<and>
   entry 16 \<in> set (keys (root two_leaves)) \<and>
   BTree_remove (Suc 4) two_leaves 16 =
     Inr \<lparr>root = Page True (map entry ([1..<16] @ [17..<32])) []\<rparr>"
proof -
  have u: "bt (Suc 1) (root (two_levels 17 16))" "sorted_keys (keys (root (two_levels 17 16)))"
    "item 272 \<in> set (keys (root (two_levels 17 16)))" "key (item 272) = 272"
    by code_simp+
  have w: "bt (Suc 1) (root (two_levels 16 17))" "sorted_keys (keys (root (two_levels 16 17)))"
    "item 256 \<in> set (keys (root (two_levels 16 17)))" "key (item 256) = 256"
    by code_simp+
  have h: "bt (Suc 0) (root three_leaves)" "sorted_keys (keys (root three_leaves))"
    "entry 33 \<in> set (keys (root three_leaves))" "key (entry 33) = 33"
    "entry 16 \<in> set (keys (root three_leaves))" "key (entry 16) = 16"
    by code_simp+
  have g: "bt (Suc 0) (root two_leaves)" "sorted_keys (keys (root two_leaves))"
    "entry 16 \<in> set (keys (root two_leaves))"
    by code_simp+
  have t: "\<lparr>root = root three_leaves\<rparr> = three_leaves" "\<lparr>root = root two_leaves\<rparr> = two_leaves"
    "\<lparr>root = root (two_levels m1 m2)\<rparr> = two_levels m1 m2" for m1 m2
    by simp_all
  have ch: "children (root (two_levels 17 16)) !
        (bisect_right (keys (root (two_levels 17 16))) 272 - 1) = node_from 0 17"
    "children (root (two_levels 16 17)) !
        Suc (bisect_right (keys (root (two_levels 16 17))) 256 - 1) = node_from 256 17"
    "last (inorder (node_from 0 17)) = item 271" "hd (inorder (node_from 256 17)) = item 257"
    by code_simp+
  have p: "find_predecessor (node_from 0 17) = Inr (item 271)"
    using remove_separator [OF u, of 4, unfolded Let_def, THEN conjunct2, THEN conjunct2,
        THEN conjunct1] unfolding ch .
  have p': "last (keys (node_from 0 17)) = item 256" by code_simp
  have s: "find_successor (node_from 256 17) = Inr (item 257)"
    using remove_separator [OF w, of 4, unfolded Let_def, THEN conjunct2, THEN conjunct2,
        THEN conjunct2, THEN conjunct1] unfolding ch .
  have s': "hd (keys (node_from 256 17)) = item 272" by code_simp
  have x: "BTree_remove (Suc 4) (two_levels 17 16) 272 =
     Inr \<lparr>root = Page False [item 271]
            [Page False (map (\<lambda>j. item (16 * j)) [1..15])
               (map (\<lambda>j. leaf_from (16 * j)) [0..14] @ [Page True (map item [241..270]) []]),
             node_from 272 16]\<rparr>"
    apply (subst t(3) [symmetric])
    apply (subst remove_separator [OF u, of 4, unfolded Let_def, THEN conjunct2, THEN conjunct2,
          THEN conjunct2, THEN conjunct2, THEN conjunct2])
    apply (subst remove_separator [OF u, of 4, unfolded Let_def, THEN conjunct2, THEN conjunct2,
          THEN conjunct2, THEN conjunct2, THEN conjunct1])
    apply code_simp
    done
  have y: "BTree_remove (Suc 4) (two_levels 16 17) 256 =
     Inr \<lparr>root = Page False [item 257]
            [node_from 0 16,
             Page False (map (\<lambda>j. item (256 + 16 * j)) [2..16])
               (Page True (map item [258..287]) [] #
                map (\<lambda>j. leaf_from (256 + 16 * j)) [2..16])]\<rparr>"
    apply (subst t(3) [symmetric])
    apply (subst remove_separator [OF w, of 4, unfolded Let_def, THEN conjunct2, THEN conjunct2,
          THEN conjunct2, THEN conjunct2, THEN conjunct2])
    apply (subst remove_separator [OF w, of 4, unfolded Let_def, THEN conjunct2, THEN conjunct2,
          THEN conjunct2, THEN conjunct2, THEN conjunct1])
    apply code_simp
    done
  have a: "BTree_remove (Suc 4) three_leaves 33 =
     Inr \<lparr>root = Page False [entry 16, entry 32]
            [Page True (map entry [1..<16]) [],
             Page True (map entry [17..<32]) [],
             Page True (map entry [34..<49]) []]\<rparr>"
    apply (subst t(1) [symmetric])
    apply (subst remove_separator [OF h(1,2,3,4), of 4, unfolded Let_def, THEN conjunct2,
          THEN conjunct2, THEN conjunct2, THEN conjunct2, THEN conjunct2])
    apply (subst remove_separator [OF h(1,2,3,4), of 4, unfolded Let_def, THEN conjunct2,
          THEN conjunct2, THEN conjunct2, THEN conjunct2, THEN conjunct1])
    apply code_simp
    done
  have b: "BTree_remove (Suc 4) three_leaves 16 =
     Inr \<lparr>root = Page False [entry 17, entry 33]
            [Page True (map entry [1..<16]) [],
             Page True (map entry [18..<33]) [],
             Page True (map entry [34..<49]) []]\<rparr>"
    apply (subst t(1) [symmetric])
    apply (subst remove_separator [OF h(1,2,5,6), of 4, unfolded Let_def, THEN conjunct2,
          THEN conjunct2, THEN conjunct2, THEN conjunct2, THEN conjunct2])
    apply (subst remove_separator [OF h(1,2,5,6), of 4, unfolded Let_def, THEN conjunct2,
          THEN conjunct2, THEN conjunct2, THEN conjunct2, THEN conjunct1])
    apply code_simp
    done
  have c: "BTree_remove (Suc 4) two_leaves 16 =
     Inr \<lparr>root = Page True (map entry ([1..<16] @ [17..<32])) []\<rparr>"
    apply (subst t(2) [symmetric])
    apply (subst remove_separator [OF g(1,2,3) h(6), of 4, unfolded Let_def, THEN conjunct2,
          THEN conjunct2, THEN conjunct2, THEN conjunct2, THEN conjunct2])
    apply (subst remove_separator [OF g(1,2,3) h(6), of 4, unfolded Let_def, THEN conjunct2,
          THEN conjunct2, THEN conjunct2, THEN conjunct2, THEN conjunct1])
    apply code_simp
    done
  have n: "(2::nat) = Suc 1" "(1::nat) = Suc 0" by simp_all
  from u w h g p p' s s' x y a b c show ?thesis unfolding n by blast
qed

section \<open>Repairing a child before descending\<close>

text \<open>
  Claim C6, as amended. An internal page does not hold the key, and the child at the
  bisection index, which must contain it, has exactly \<open>DEGREE - 1\<close> entries. Then the
  child is repaired before any descent: by borrowing from the right sibling if that
  has more than \<open>DEGREE - 1\<close> entries, else by borrowing from the left sibling if that
  has, else by merging the child with a sibling. After a borrow the removal is retried
  at the page. After a merge the key is removed from the merged child; if the page is
  left without entries the merged child is returned in its place, otherwise the
  removal is retried at the page.
\<close>

theorem remove_repairs_before_descending:
  assumes "\<not> bottom self" and "sorted_keys (keys self)" and "keys self \<noteq> []"
    and "length (children self) = Suc (length (keys self))"
    and "k \<notin> key ` set (keys self)"
    and "length (keys (children self ! bisect_right (keys self) k)) = DEGREE - 1"
  shows
    "(let r = bisect_right (keys self) k in
      remove (Suc n) self k =
        (if r + 1 < length (children self) \<and>
            DEGREE - 1 < length (keys (children self ! (r + 1))) then
           bind_e (borrow_from_right self r) (\<lambda>self1.
           bind_e (remove n self1 k) (\<lambda>(self', _). Inr (self', self')))
         else if 0 < r \<and> DEGREE - 1 < length (keys (children self ! (r - 1))) then
           bind_e (borrow_from_left self (r - 1) r) (\<lambda>self1.
           bind_e (remove n self1 k) (\<lambda>(self', _). Inr (self', self')))
         else
           bind_e (merge self (r - 1) (children self ! (r - 1)) (children self ! Suc (r - 1)))
             (\<lambda>(self1, merged).
           bind_e (remove n merged k) (\<lambda>(merged', _).
             let self2 = Page (bottom self1) (keys self1) ((children self1)[r - 1 := merged'])
             in
             if length (keys self2) = 0 then Inr (self2, merged')
             else bind_e (remove n self2 k) (\<lambda>(self', _). Inr (self', self'))))))"
proof -
  note eq = remove_absent_eq [OF assms(1,2,5,3,4), of n, unfolded Let_def]
  show ?thesis unfolding Let_def by (simp only: eq assms(6) simp_thms if_True)
qed

theorem remove_repairs_before_descending_witness:
  "\<not> bottom (root three_leaves) \<and> sorted_keys (keys (root three_leaves)) \<and>
   keys (root three_leaves) \<noteq> [] \<and>
   length (children (root three_leaves)) = Suc (length (keys (root three_leaves))) \<and>
   5 \<notin> key ` set (keys (root three_leaves)) \<and>
   length (keys (children (root three_leaves) ! bisect_right (keys (root three_leaves)) 5)) =
     DEGREE - 1 \<and>
   remove (Suc 4) (root three_leaves) 5 =
     Inr (Page False [entry 17, entry 33]
            [Page True (map entry ([1..<5] @ [6..<17])) [],
             Page True (map entry [18..<33]) [],
             Page True (map entry [34..<49]) []],
          Page False [entry 17, entry 33]
            [Page True (map entry ([1..<5] @ [6..<17])) [],
             Page True (map entry [18..<33]) [],
             Page True (map entry [34..<49]) []]) \<and>
   40 \<notin> key ` set (keys (root three_leaves)) \<and>
   length (keys (children (root three_leaves) ! bisect_right (keys (root three_leaves)) 40)) =
     DEGREE - 1 \<and>
   remove (Suc 4) (root three_leaves) 40 =
     Inr (Page False [entry 16, entry 32]
            [Page True (map entry [1..<16]) [],
             Page True (map entry [17..<32]) [],
             Page True (map entry ([33..<40] @ [41..<49])) []],
          Page False [entry 16, entry 32]
            [Page True (map entry [1..<16]) [],
             Page True (map entry [17..<32]) [],
             Page True (map entry ([33..<40] @ [41..<49])) []])"
proof -
  have h: "\<not> bottom (root three_leaves)" "sorted_keys (keys (root three_leaves))"
    "keys (root three_leaves) \<noteq> []"
    "length (children (root three_leaves)) = Suc (length (keys (root three_leaves)))"
    "5 \<notin> key ` set (keys (root three_leaves))"
    "length (keys (children (root three_leaves) ! bisect_right (keys (root three_leaves)) 5)) =
       DEGREE - 1"
    "40 \<notin> key ` set (keys (root three_leaves))"
    "length (keys (children (root three_leaves) ! bisect_right (keys (root three_leaves)) 40)) =
       DEGREE - 1"
    by code_simp+
  have a: "remove (Suc 4) (root three_leaves) 5 =
     Inr (Page False [entry 17, entry 33]
            [Page True (map entry ([1..<5] @ [6..<17])) [],
             Page True (map entry [18..<33]) [],
             Page True (map entry [34..<49]) []],
          Page False [entry 17, entry 33]
            [Page True (map entry ([1..<5] @ [6..<17])) [],
             Page True (map entry [18..<33]) [],
             Page True (map entry [34..<49]) []])"
    apply (subst remove_repairs_before_descending [OF h(1,2,3,4,5,6), of 4, unfolded Let_def])
    apply code_simp
    done
  have b: "remove (Suc 4) (root three_leaves) 40 =
     Inr (Page False [entry 16, entry 32]
            [Page True (map entry [1..<16]) [],
             Page True (map entry [17..<32]) [],
             Page True (map entry ([33..<40] @ [41..<49])) []],
          Page False [entry 16, entry 32]
            [Page True (map entry [1..<16]) [],
             Page True (map entry [17..<32]) [],
             Page True (map entry ([33..<40] @ [41..<49])) []])"
    apply (subst remove_repairs_before_descending [OF h(1,2,3,4,7,8), of 4, unfolded Let_def])
    apply code_simp
    done
  from h a b show ?thesis by blast
qed

text \<open>
  The claim as stated has the removal retried at the page after every repair. In the
  tree of the keys 1 to 31 the root holds the key 16 alone over two leaves of 15
  entries. Removing 3 merges the leaves, which leaves the root without entries; the
  removal is not retried there (that call would raise \<open>IndexError\<close> on the empty key
  list) and the merged leaf without 3 is returned.
\<close>

theorem merge_collapse_counterexample:
  "3 \<notin> key ` set (keys (root two_leaves)) \<and>
   length (keys (children (root two_leaves) ! bisect_right (keys (root two_leaves)) 3)) =
     DEGREE - 1 \<and>
   merge (root two_leaves) 0 (children (root two_leaves) ! 0) (children (root two_leaves) ! 1) =
     Inr (Page False [] [Page True (map entry [1..<32]) []], Page True (map entry [1..<32]) []) \<and>
   remove 4 (Page False [] [Page True (map entry [1..<32]) []]) 3 = Inl IndexError \<and>
   remove (Suc 4) (root two_leaves) 3 =
     Inr (Page False [] [Page True (map entry ([1..<3] @ [4..<32])) []],
          Page True (map entry ([1..<3] @ [4..<32])) [])"
  by code_simp

section \<open>Finding what was added\<close>


text \<open>
  Whenever the operations replayed on an empty tree all return, \<open>find\<close> returns for
  every key that no operation of the list removes exactly the values that were added
  under the key, in the order in which they were added (absence when there are none),
  whatever other keys were added and removed in between.
\<close>

lemma find_after_replay:
  assumes "replay n BTree_init acts = Inr t" and "Delete k \<notin> set acts"
  shows "find_key t k = Inr (if added k acts = [] then None else Some (added k acts))"
proof -
  from replay_refines [OF btree_ok_init assms(1)]
  have ok: "btree_ok t"
    and l: "lookup (inorder (root t)) = naive_replay (lookup (inorder (root BTree_init))) acts"
    by simp_all
  have init: "lookup (inorder (root BTree_init)) k = None" by (simp add: BTree_init_def)
  have "naive_replay (lookup (inorder (root BTree_init))) acts k =
      (if added k acts = [] then None else Some (added k acts))"
    unfolding naive_replay_added [OF assms(2)] init by simp
  then have "lookup (inorder (root t)) k = (if added k acts = [] then None else Some (added k acts))"
    unfolding l .
  with ok show ?thesis by (simp add: find_key_lookup)
qed

text \<open>
  The scenario of the specification: the keys 13, 8, 3, 2, 5, 1, 1 with the values 0 to
  6 stay in the root leaf, after which \<open>find\<close> gives 5, 6 for the key 1, gives 0 for the
  key 13 and absence for the key 100.
\<close>

lemma scenario_finds:
  "replay 0 BTree_init scenario =
     Inr \<lparr>root = Page True
            [SmartKey 1 [5, 6], SmartKey 2 [3], SmartKey 3 [2], SmartKey 5 [4],
             SmartKey 8 [1], SmartKey 13 [0]] []\<rparr> \<and>
   Delete 1 \<notin> set scenario \<and> Delete 13 \<notin> set scenario \<and> Delete 100 \<notin> set scenario \<and>
   map (find_key \<lparr>root = Page True
            [SmartKey (1::int) [5, 6::nat], SmartKey 2 [3], SmartKey 3 [2], SmartKey 5 [4],
             SmartKey 8 [1], SmartKey 13 [0]] []\<rparr>) [1, 13, 100] =
     [Inr (Some [5, 6]), Inr (Some [0]), Inr None] \<and>
   replay 1 BTree_init [Add 1 10, Add 2 20, Delete 2, Add 1 11] =
     Inr \<lparr>root = Page True [SmartKey (1::int) [10, 11::nat]] []\<rparr> \<and>
   Delete 1 \<notin> set [Add 1 10, Add 2 20, Delete 2, Add (1::int) (11::nat)] \<and>
   find_key \<lparr>root = Page True [SmartKey (1::int) [10, 11::nat]] []\<rparr> 1 = Inr (Some [10, 11])"
proof -
  let ?t = "\<lparr>root = Page True
            [SmartKey (1::int) [5, 6::nat], SmartKey 2 [3], SmartKey 3 [2], SmartKey 5 [4],
             SmartKey 8 [1], SmartKey 13 [0]] []\<rparr>"
  have r: "replay 0 BTree_init scenario = Inr ?t" by code_simp
  have d: "Delete 1 \<notin> set scenario" "Delete 13 \<notin> set scenario" "Delete 100 \<notin> set scenario"
    by code_simp+
  have a: "added 1 scenario = [5, 6]" "added 13 scenario = [0]" "added 100 scenario = []"
    by code_simp+
  have "find_key ?t 1 = Inr (Some [5, 6])"
    using find_after_replay [OF r d(1)] a(1) by simp
  moreover have "find_key ?t 13 = Inr (Some [0])"
    using find_after_replay [OF r d(2)] a(2) by simp
  moreover have "find_key ?t 100 = Inr None"
    using find_after_replay [OF r d(3)] a(3) by simp
  moreover have r2: "replay 1 BTree_init [Add 1 10, Add 2 20, Delete 2, Add 1 11] =
     Inr \<lparr>root = Page True [SmartKey (1::int) [10, 11::nat]] []\<rparr>" by code_simp
  moreover have d2: "Delete 1 \<notin> set [Add 1 10, Add 2 20, Delete 2, Add (1::int) (11::nat)]"
    by simp
  moreover have "find_key \<lparr>root = Page True [SmartKey (1::int) [10, 11::nat]] []\<rparr> 1 =
      Inr (Some [10, 11])"
    using find_after_replay [OF r2 d2] by simp
  ultimately show ?thesis using r d by simp
qed

end
